theory Spec2Isabelle
  imports Complex_Main
begin

section \<open>JavaScript values\<close>

text \<open>
  An object property is either missing from the object (\<open>Absent\<close>), present with the
  value \<open>undefined\<close>, present with the value \<open>null\<close>, or present with a proper value.
  The distinction between the first two matters for object spread: a key that is
  present with \<open>undefined\<close> still overrides the key of an earlier spread operand.
  JavaScript numbers are modelled as reals (NaN and the infinities are left out).
\<close>

datatype 'a js = Absent | Undefined | Null | Val 'a

text \<open>\<^verbatim>\<open>a ?? d\<close> for a default \<open>d\<close> that is a proper value.\<close>

fun orElse :: "'a js \<Rightarrow> 'a \<Rightarrow> 'a" where
  "orElse (Val v) d = v"
| "orElse Absent d = d"
| "orElse Undefined d = d"
| "orElse Null d = d"

text \<open>The property \<open>k\<close> of \<^verbatim>\<open>{...a, ...b}\<close>, from \<open>a.k\<close> and \<open>b.k\<close>.\<close>

fun spread :: "'a js \<Rightarrow> 'a js \<Rightarrow> 'a js" where
  "spread a Absent = a"
| "spread a b = b"

text \<open>Reading a property: a missing key reads as \<open>undefined\<close>.\<close>

fun get :: "'a js \<Rightarrow> 'a js" where
  "get Absent = Undefined"
| "get v = v"

section \<open>types.ts\<close>

datatype SileoState = Success | Loading | Error | Warning | Info | Action

datatype SileoPosition =
  TopLeft | TopCenter | TopRight | BottomLeft | BottomCenter | BottomRight

record SileoStyles =
  style_title :: "string js"
  style_description :: "string js"
  style_badge :: "string js"
  style_button :: "string js"

text \<open>A button's click handler and a virtual node are opaque to the store: they are
  carried around by a label.\<close>

record SileoButton =
  button_title :: string
  onClick :: string

datatype VNode = VNode string

datatype content = Text string | Node VNode

datatype autopilot = Flag bool | Config "real js" "real js"

record SileoOptions =
  title :: "string js"
  description :: "content js"
  position :: "SileoPosition js"
  duration :: "real js"
  icon :: "VNode js"
  styles :: "SileoStyles js"
  fill :: "string js"
  roundness :: "real js"
  autopilot :: "autopilot js"
  button :: "SileoButton js"

section \<open>store.ts: constants and types\<close>

definition DEFAULT_DURATION :: real where
  "DEFAULT_DURATION = 6000"

definition EXIT_DURATION :: real where
  "EXIT_DURATION = DEFAULT_DURATION * 0.1"

definition AUTO_EXPAND_DELAY :: real where
  "AUTO_EXPAND_DELAY = DEFAULT_DURATION * 0.025"

definition AUTO_COLLAPSE_DELAY :: real where
  "AUTO_COLLAPSE_DELAY = DEFAULT_DURATION - 2000"

text \<open>The field \<open>id\<close> of the source is \<open>id'\<close> here (\<open>id\<close> is the identity function of HOL).
  A \<open>SileoItem\<close> always carries \<open>Val i\<close> in it.\<close>

record InternalSileoOptions = SileoOptions +
  id' :: "string js"
  state :: "SileoState js"

text \<open>\<open>exiting\<close> is optional in the source and only ever tested for truthiness: a missing
  flag is \<open>False\<close>.\<close>

record SileoItem = InternalSileoOptions +
  instanceId :: string
  exiting :: bool
  autoExpandDelayMs :: "real option"
  autoCollapseDelayMs :: "real option"

text \<open>The two handlers of a promise toast are caller code: a static option object, or a
  function of the outcome that returns options or throws (\<open>Inl\<close>).\<close>

datatype resolver = Static SileoOptions | Dynamic "string \<Rightarrow> string + SileoOptions"

record SileoPromiseOptions =
  loading :: SileoOptions
  success :: resolver
  error :: resolver
  action :: "resolver option"
  promise_position :: "SileoPosition js"

section \<open>The environment: timers, clock, promises\<close>

text \<open>
  A timer of the event loop holds the handle \<^verbatim>\<open>setTimeout\<close> returned, the time at which
  it is due and its callback. The program has two kinds of callback:
  \<open>ExitRemove i\<close> is \<^verbatim>\<open>() => store.update((prev) => prev.filter((t) => t.id !== i))\<close>
  (set by both copies of \<open>dismissToast\<close>), \<open>AutoDismiss i\<close> is
  \<^verbatim>\<open>() => dismissToast(i)\<close> (set by the viewport's \<open>schedule\<close>).
\<close>

datatype callback = ExitRemove string | AutoDismiss string

record timer =
  handle :: nat
  due :: real
  callback :: callback

text \<open>
  One record holds the module state of store.ts (\<open>toasts\<close>, the listener set, here
  whether the one viewport's listener is registered, \<open>store.position\<close>,
  \<open>store.options\<close>, \<open>idCounter\<close>), the event loop (clock, pending timers, promise
  reactions registered by \<open>sileo.promise\<close>) and the state of the viewport component
  (its \<open>toasts\<close> ref, \<open>activeId\<close>, \<open>hovered\<close>, \<open>timers\<close>, \<open>handlersCache\<close>, props).
\<close>

record world =
  toasts :: "SileoItem list"
  mounted :: bool
  store_position :: SileoPosition
  store_options :: "SileoOptions option"
  idCounter :: nat
  now :: real
  nextHandle :: nat
  pending :: "timer list"
  reactions :: "(nat \<times> string \<times> SileoPromiseOptions) list"
  vp_toasts :: "SileoItem list"
  activeId :: "string js"
  hovered :: bool
  timers :: "(string \<times> nat) list"
  handlersCache :: "string list"
  props_position :: SileoPosition
  props_options :: "SileoOptions option"

text \<open>What \<open>Date.now().toString(36)\<close> and \<open>Math.random().toString(36).slice(2, 8)\<close>
  give at a call of \<open>generateId\<close>.\<close>

record env =
  timestamp :: string
  random :: string

definition setTimeout :: "callback \<Rightarrow> real \<Rightarrow> world \<Rightarrow> nat \<times> world" where
  "setTimeout cb delay w =
     (nextHandle w,
      w\<lparr>pending := pending w @ [\<lparr>handle = nextHandle w, due = now w + max 0 delay, callback = cb\<rparr>],
        nextHandle := Suc (nextHandle w)\<rparr>)"

definition clearTimeout :: "nat \<Rightarrow> world \<Rightarrow> world" where
  "clearTimeout h w = w\<lparr>pending := filter (\<lambda>t. handle t \<noteq> h) (pending w)\<rparr>"

section \<open>store.ts: the registry\<close>

text \<open>The text of a string-typed value in a template literal.\<close>

fun str :: "string js \<Rightarrow> string" where
  "str (Val s) = s"
| "str Null = ''null''"
| "str Absent = ''undefined''"
| "str Undefined = ''undefined''"

definition timeoutKey :: "SileoItem \<Rightarrow> string" where
  "timeoutKey t = str (id' t) @ '':'' @ instanceId t"

text \<open>The decimal text of \<^verbatim>\<open>${++idCounter}\<close>.\<close>

fun nat_to_string :: "nat \<Rightarrow> string" where
  "nat_to_string n =
     (if n < 10 then [''0123456789'' ! n]
      else nat_to_string (n div 10) @ [''0123456789'' ! (n mod 10)])"

declare nat_to_string.simps [simp del]

definition generateId :: "env \<Rightarrow> world \<Rightarrow> string \<times> world" where
  "generateId e w =
     (nat_to_string (Suc (idCounter w)) @ ''-'' @ timestamp e @ ''-'' @ random e,
      w\<lparr>idCounter := Suc (idCounter w)\<rparr>)"

subsection \<open>The viewport's scheduler (SileoToaster.vue), which the store's listener runs\<close>

text \<open>The loop of \<open>schedule\<close>. After \<^verbatim>\<open>item.duration ?? DEFAULT_DURATION\<close> the duration is a
  number, so the test \<^verbatim>\<open>dur === null\<close> of the source is never true and a \<open>null\<close> duration
  is scheduled as 6000.\<close>

fun schedule_items :: "SileoItem list \<Rightarrow> world \<Rightarrow> world" where
  "schedule_items [] w = w"
| "schedule_items (item # items) w =
     (if exiting item then schedule_items items w
      else if timeoutKey item \<in> fst ` set (timers w) then schedule_items items w
      else let dur = orElse (duration item) DEFAULT_DURATION in
        if dur \<le> 0 then schedule_items items w
        else let (h, w') = setTimeout (AutoDismiss (str (id' item))) dur w in
          schedule_items items (w'\<lparr>timers := timers w' @ [(timeoutKey item, h)]\<rparr>))"

definition schedule :: "SileoItem list \<Rightarrow> world \<Rightarrow> world" where
  "schedule items w = (if hovered w then w else schedule_items items w)"

definition latest :: "SileoItem list \<Rightarrow> string js" where
  "latest ts = (case find (\<lambda>t. \<not> exiting t) (rev ts) of
                  None \<Rightarrow> Undefined
                | Some t \<Rightarrow> get (id' t))"

definition clearAllTimers :: "world \<Rightarrow> world" where
  "clearAllTimers w = (fold (\<lambda>(k, t). clearTimeout t) (timers w) w)\<lparr>timers := []\<rparr>"

definition drop_stale :: "string set \<Rightarrow> string \<times> nat \<Rightarrow> world \<Rightarrow> world" where
  "drop_stale toastKeys = (\<lambda>(key, timer) w.
     if key \<notin> toastKeys
     then (clearTimeout timer w)\<lparr>timers := filter (\<lambda>(k, h). k \<noteq> key) (timers w)\<rparr>
     else w)"

definition listener :: "SileoItem list \<Rightarrow> world \<Rightarrow> world" where
  "listener next w =
     (let w1 = w\<lparr>vp_toasts := next\<rparr>;
          toastKeys = set (map timeoutKey next);
          toastIds = set (map (\<lambda>t. str (id' t)) next);
          w2 = fold (drop_stale toastKeys) (timers w1) w1;
          w3 = w2\<lparr>handlersCache := filter (\<lambda>i. i \<in> toastIds) (handlersCache w2)\<rparr>;
          w4 = w3\<lparr>activeId := latest (vp_toasts w3)\<rparr>
      in schedule next w4)"

subsection \<open>store.emit, store.update\<close>

definition store_emit :: "world \<Rightarrow> world" where
  "store_emit w = (if mounted w then listener (toasts w) w else w)"

definition store_update :: "(SileoItem list \<Rightarrow> SileoItem list) \<Rightarrow> world \<Rightarrow> world" where
  "store_update fn w = store_emit (w\<lparr>toasts := fn (toasts w)\<rparr>)"

subsection \<open>Toast API\<close>

definition dismissToast :: "string \<Rightarrow> world \<Rightarrow> world" where
  "dismissToast i w =
     (case find (\<lambda>t. id' t = Val i) (toasts w) of
        None \<Rightarrow> w
      | Some item \<Rightarrow>
          if exiting item then w
          else let w1 = store_update (map (\<lambda>t. if id' t = Val i then t\<lparr>exiting := True\<rparr> else t)) w
               in snd (setTimeout (ExitRemove i) EXIT_DURATION w1))"

record autopilot_delays =
  expandDelayMs :: "real option"
  collapseDelayMs :: "real option"

text \<open>\<^verbatim>\<open>!duration\<close>: \<open>null\<close> and 0 are falsy.\<close>

fun falsy :: "real option \<Rightarrow> bool" where
  "falsy None = True"
| "falsy (Some d) = (d = 0)"

fun cfg_expand :: "autopilot js \<Rightarrow> real js" where
  "cfg_expand (Val (Config e c)) = get e"
| "cfg_expand _ = Undefined"

fun cfg_collapse :: "autopilot js \<Rightarrow> real js" where
  "cfg_collapse (Val (Config e c)) = get c"
| "cfg_collapse _ = Undefined"

definition clamp :: "real \<Rightarrow> real \<Rightarrow> real" where
  "clamp dur v = min dur (max 0 v)"

definition resolveAutopilot :: "InternalSileoOptions \<Rightarrow> real option \<Rightarrow> autopilot_delays" where
  "resolveAutopilot opts dur =
     (if autopilot opts = Val (Flag False) \<or> falsy dur \<or> the dur \<le> 0
      then \<lparr>expandDelayMs = None, collapseDelayMs = None\<rparr>
      else \<lparr>expandDelayMs =
              Some (clamp (the dur) (orElse (cfg_expand (autopilot opts)) AUTO_EXPAND_DELAY)),
            collapseDelayMs =
              Some (clamp (the dur) (orElse (cfg_collapse (autopilot opts)) AUTO_COLLAPSE_DELAY))\<rparr>)"

definition no_styles :: SileoStyles where
  "no_styles = \<lparr>style_title = Absent, style_description = Absent,
                 style_badge = Absent, style_button = Absent\<rparr>"

fun styles_of :: "SileoStyles js \<Rightarrow> SileoStyles" where
  "styles_of (Val s) = s"
| "styles_of _ = no_styles"

definition spread_styles :: "SileoStyles js \<Rightarrow> SileoStyles js \<Rightarrow> SileoStyles" where
  "spread_styles a b =
     \<lparr>style_title = spread (style_title (styles_of a)) (style_title (styles_of b)),
      style_description = spread (style_description (styles_of a)) (style_description (styles_of b)),
      style_badge = spread (style_badge (styles_of a)) (style_badge (styles_of b)),
      style_button = spread (style_button (styles_of a)) (style_button (styles_of b))\<rparr>"

definition no_options :: SileoOptions where
  "no_options = \<lparr>title = Absent, description = Absent, position = Absent, duration = Absent,
                  icon = Absent, styles = Absent, fill = Absent, roundness = Absent,
                  autopilot = Absent, button = Absent\<rparr>"

fun options_of :: "SileoOptions option \<Rightarrow> SileoOptions" where
  "options_of None = no_options"
| "options_of (Some so) = so"

definition mergeOptions :: "SileoOptions option \<Rightarrow> InternalSileoOptions \<Rightarrow> InternalSileoOptions" where
  "mergeOptions so options =
     \<lparr>title = spread (title (options_of so)) (title options),
      description = spread (description (options_of so)) (description options),
      position = spread (position (options_of so)) (position options),
      duration = spread (duration (options_of so)) (duration options),
      icon = spread (icon (options_of so)) (icon options),
      styles = Val (spread_styles (styles (options_of so)) (styles options)),
      fill = spread (fill (options_of so)) (fill options),
      roundness = spread (roundness (options_of so)) (roundness options),
      autopilot = spread (autopilot (options_of so)) (autopilot options),
      button = spread (button (options_of so)) (button options),
      id' = id' options,
      state = state options\<rparr>"

definition buildSileoItem ::
  "InternalSileoOptions \<Rightarrow> string \<Rightarrow> SileoPosition js \<Rightarrow> env \<Rightarrow> world \<Rightarrow> SileoItem \<times> world" where
  "buildSileoItem merged i fallbackPosition e w =
     (let dur = orElse (duration merged) DEFAULT_DURATION;
          auto = resolveAutopilot merged (Some dur);
          (inst, w') = generateId e w
      in (\<lparr>title = title merged, description = description merged,
           position = Val (orElse (position merged) (orElse fallbackPosition (store_position w))),
           duration = duration merged, icon = icon merged, styles = styles merged,
           fill = fill merged, roundness = roundness merged, autopilot = autopilot merged,
           button = button merged, id' = Val i, state = state merged,
           instanceId = inst, exiting = False,
           autoExpandDelayMs = expandDelayMs auto,
           autoCollapseDelayMs = collapseDelayMs auto\<rparr>, w'))"

fun position_of :: "SileoItem option \<Rightarrow> SileoPosition js" where
  "position_of None = Undefined"
| "position_of (Some t) = get (position t)"

definition createToast :: "InternalSileoOptions \<Rightarrow> env \<Rightarrow> world \<Rightarrow> (string \<times> real) \<times> world" where
  "createToast options e w =
     (let live = filter (\<lambda>t. \<not> exiting t) (toasts w);
          merged = mergeOptions (store_options w) options;
          i = orElse (id' merged) ''sileo-default'';
          prev = find (\<lambda>t. id' t = Val i) live;
          (item, w1) = buildSileoItem merged i (position_of prev) e w;
          w2 = (case prev of
                  Some p \<Rightarrow> store_update (map (\<lambda>t. if id' t = Val i then item else t)) w1
                | None \<Rightarrow> store_update (\<lambda>p. filter (\<lambda>t. id' t \<noteq> Val i) p @ [item]) w1)
      in ((i, orElse (duration merged) DEFAULT_DURATION), w2))"

definition updateToast :: "string \<Rightarrow> InternalSileoOptions \<Rightarrow> env \<Rightarrow> world \<Rightarrow> world" where
  "updateToast i options e w =
     (case find (\<lambda>t. id' t = Val i) (toasts w) of
        None \<Rightarrow> w
      | Some existing \<Rightarrow>
          let (item, w1) = buildSileoItem (mergeOptions (store_options w) options) i
                             (get (position existing)) e w
          in store_update (map (\<lambda>t. if id' t = Val i then item else t)) w1)"

subsection \<open>The \<open>sileo\<close> object\<close>

text \<open>The argument of \<open>show\<close> and its siblings is typed \<open>SileoOptions\<close>; at run time the
  object may carry an \<open>id\<close>, which \<open>createToast\<close> reads.\<close>

definition sileo_show :: "InternalSileoOptions \<Rightarrow> env \<Rightarrow> world \<Rightarrow> string \<times> world" where
  "sileo_show opts e w = (let (r, w') = createToast opts e w in (fst r, w'))"

definition sileo_success :: "InternalSileoOptions \<Rightarrow> env \<Rightarrow> world \<Rightarrow> string \<times> world" where
  "sileo_success opts e w =
     (let (r, w') = createToast (opts\<lparr>state := Val Success\<rparr>) e w in (fst r, w'))"

definition sileo_error :: "InternalSileoOptions \<Rightarrow> env \<Rightarrow> world \<Rightarrow> string \<times> world" where
  "sileo_error opts e w =
     (let (r, w') = createToast (opts\<lparr>state := Val Error\<rparr>) e w in (fst r, w'))"

definition sileo_warning :: "InternalSileoOptions \<Rightarrow> env \<Rightarrow> world \<Rightarrow> string \<times> world" where
  "sileo_warning opts e w =
     (let (r, w') = createToast (opts\<lparr>state := Val Warning\<rparr>) e w in (fst r, w'))"

definition sileo_info :: "InternalSileoOptions \<Rightarrow> env \<Rightarrow> world \<Rightarrow> string \<times> world" where
  "sileo_info opts e w =
     (let (r, w') = createToast (opts\<lparr>state := Val Info\<rparr>) e w in (fst r, w'))"

definition sileo_action :: "InternalSileoOptions \<Rightarrow> env \<Rightarrow> world \<Rightarrow> string \<times> world" where
  "sileo_action opts e w =
     (let (r, w') = createToast (opts\<lparr>state := Val Action\<rparr>) e w in (fst r, w'))"

definition sileo_dismiss :: "string \<Rightarrow> world \<Rightarrow> world" where
  "sileo_dismiss = dismissToast"

text \<open>\<^verbatim>\<open>position ? ... : []\<close>: a position string is truthy.\<close>

fun sileo_clear :: "SileoPosition js \<Rightarrow> world \<Rightarrow> world" where
  "sileo_clear (Val p) w = store_update (filter (\<lambda>t. position t \<noteq> Val p)) w"
| "sileo_clear _ w = store_update (\<lambda>prev. []) w"

subsection \<open>sileo.promise\<close>

text \<open>
  A promise is known by a number. The caller passes a promise or a factory, whose call
  returns a promise or throws. \<open>sileo.promise\<close> registers one reaction on the promise,
  \<^verbatim>\<open>p.then(onFulfilled).catch(onRejected)\<close>, which the event loop runs when the promise
  settles.
\<close>

datatype operation = Started nat | Factory "string + nat"

datatype outcome = Fulfilled string | Rejected string

fun resolve :: "resolver \<Rightarrow> string \<Rightarrow> string + SileoOptions" where
  "resolve (Static opts) x = Inr opts"
| "resolve (Dynamic f) x = f x"

text \<open>\<^verbatim>\<open>{ ...o, state: s, id }\<close>\<close>

definition with_state :: "SileoOptions \<Rightarrow> SileoState \<Rightarrow> string \<Rightarrow> InternalSileoOptions" where
  "with_state opts s i =
     \<lparr>title = title opts, description = description opts, position = position opts,
      duration = duration opts, icon = icon opts, styles = styles opts, fill = fill opts,
      roundness = roundness opts, autopilot = autopilot opts, button = button opts,
      id' = Val i, state = Val s\<rparr>"

text \<open>\<^verbatim>\<open>{ ...opts.loading, state: "loading", duration: null, position: opts.position }\<close>\<close>

definition loading_options :: "SileoPromiseOptions \<Rightarrow> InternalSileoOptions" where
  "loading_options opts =
     \<lparr>title = title (loading opts), description = description (loading opts),
      position = get (promise_position opts), duration = Null, icon = icon (loading opts),
      styles = styles (loading opts), fill = fill (loading opts),
      roundness = roundness (loading opts), autopilot = autopilot (loading opts),
      button = button (loading opts), id' = Absent, state = Val Loading\<rparr>"

fun call_operation :: "operation \<Rightarrow> string + nat" where
  "call_operation (Started p) = Inr p"
| "call_operation (Factory r) = r"

text \<open>The result is the promise returned to the caller, or the exception of the factory.\<close>

definition sileo_promise ::
  "operation \<Rightarrow> SileoPromiseOptions \<Rightarrow> env \<Rightarrow> world \<Rightarrow> (string + nat) \<times> world" where
  "sileo_promise promise opts e w =
     (let (r, w1) = createToast (loading_options opts) e w
      in case call_operation promise of
           Inl exn \<Rightarrow> (Inl exn, w1)
         | Inr p \<Rightarrow> (Inr p, w1\<lparr>reactions := reactions w1 @ [(p, fst r, opts)]\<rparr>))"

text \<open>The handler given to \<open>then\<close>: \<open>Inl\<close> when a caller's function throws.\<close>

definition onFulfilled ::
  "string \<Rightarrow> SileoPromiseOptions \<Rightarrow> string \<Rightarrow> env \<Rightarrow> world \<Rightarrow> string + world" where
  "onFulfilled i opts data e w =
     (case action opts of
        Some a \<Rightarrow>
          (case resolve a data of
             Inl exn \<Rightarrow> Inl exn
           | Inr actionOpts \<Rightarrow> Inr (updateToast i (with_state actionOpts Action i) e w))
      | None \<Rightarrow>
          (case resolve (success opts) data of
             Inl exn \<Rightarrow> Inl exn
           | Inr successOpts \<Rightarrow> Inr (updateToast i (with_state successOpts Success i) e w)))"

text \<open>The handler given to \<open>catch\<close>. An exception of the caller's function rejects the
  derived promise, which nobody reads.\<close>

definition onRejected ::
  "string \<Rightarrow> SileoPromiseOptions \<Rightarrow> string \<Rightarrow> env \<Rightarrow> world \<Rightarrow> world" where
  "onRejected i opts err e w =
     (case resolve (error opts) err of
        Inl exn \<Rightarrow> w
      | Inr errorOpts \<Rightarrow> updateToast i (with_state errorOpts Error i) e w)"

text \<open>\<^verbatim>\<open>p.then(onFulfilled).catch(onRejected)\<close>: the \<open>catch\<close> handler also receives what the
  \<open>then\<close> handler throws.\<close>

definition react :: "string \<Rightarrow> SileoPromiseOptions \<Rightarrow> outcome \<Rightarrow> env \<Rightarrow> world \<Rightarrow> world" where
  "react i opts out e w =
     (case out of
        Fulfilled data \<Rightarrow>
          (case onFulfilled i opts data e w of
             Inr w' \<Rightarrow> w'
           | Inl exn \<Rightarrow> onRejected i opts exn e w)
      | Rejected err \<Rightarrow> onRejected i opts err e w)"

definition settle :: "nat \<Rightarrow> outcome \<Rightarrow> env \<Rightarrow> world \<Rightarrow> world" where
  "settle p out e w =
     fold (\<lambda>(q, i, opts) w'. if q = p then react i opts out e w' else w')
          (reactions w)
          (w\<lparr>reactions := filter (\<lambda>(q, i, opts). q \<noteq> p) (reactions w)\<rparr>)"

section \<open>SileoToaster.vue: the viewport\<close>

text \<open>The component's own copy of \<open>dismissToast\<close>.\<close>

definition vp_dismissToast :: "string \<Rightarrow> world \<Rightarrow> world" where
  "vp_dismissToast i w =
     (case find (\<lambda>t. id' t = Val i) (toasts w) of
        None \<Rightarrow> w
      | Some item \<Rightarrow>
          if exiting item then w
          else let w1 = store_update (map (\<lambda>t. if id' t = Val i then t\<lparr>exiting := True\<rparr> else t)) w
               in snd (setTimeout (ExitRemove i) (DEFAULT_DURATION * 0.1) w1))"

definition syncConfig :: "world \<Rightarrow> world" where
  "syncConfig w = w\<lparr>store_position := props_position w, store_options := props_options w\<rparr>"

definition getHandlers :: "string \<Rightarrow> world \<Rightarrow> world" where
  "getHandlers toastId w =
     (if toastId \<in> set (handlersCache w) then w
      else w\<lparr>handlersCache := handlersCache w @ [toastId]\<rparr>)"

definition enter :: "string \<Rightarrow> world \<Rightarrow> world" where
  "enter toastId w =
     (let w1 = w\<lparr>activeId := Val toastId\<rparr>
      in if \<not> hovered w1 then clearAllTimers (w1\<lparr>hovered := True\<rparr>) else w1)"

definition leave :: "string \<Rightarrow> world \<Rightarrow> world" where
  "leave toastId w =
     (let w1 = w\<lparr>activeId := latest (vp_toasts w)\<rparr>
      in if hovered w1 then schedule (vp_toasts w1) (w1\<lparr>hovered := False\<rparr>) else w1)"

text \<open>Setup and \<open>onMounted\<close> of a new component instance, and \<open>onUnmounted\<close>.\<close>

definition mount :: "SileoPosition \<Rightarrow> SileoOptions option \<Rightarrow> world \<Rightarrow> world" where
  "mount p opts w =
     syncConfig (w\<lparr>vp_toasts := toasts w, activeId := Undefined, hovered := False, timers := [],
                   handlersCache := [], props_position := p, props_options := opts,
                   mounted := True\<rparr>)"

definition unmount :: "world \<Rightarrow> world" where
  "unmount w = clearAllTimers (w\<lparr>mounted := False\<rparr>)"

section \<open>The event loop\<close>

text \<open>
  What can happen to the system: a call of the public API, a promise given to
  \<open>sileo.promise\<close> settling, a pending timer firing, time passing, and the events of the
  one viewport component (there is one \<open>SileoToaster\<close> at a time; the rendering layer
  delivers pointer events and prop changes to a mounted component only, and mounts a
  new instance only when none is mounted).
\<close>

datatype event =
    Show InternalSileoOptions env
  | SuccessE InternalSileoOptions env
  | ErrorE InternalSileoOptions env
  | WarningE InternalSileoOptions env
  | InfoE InternalSileoOptions env
  | ActionE InternalSileoOptions env
  | PromiseE operation SileoPromiseOptions env
  | Settle nat outcome env
  | Dismiss string
  | Clear "SileoPosition js"
  | Fire nat
  | Advance real
  | Mount SileoPosition "SileoOptions option"
  | SetProps SileoPosition "SileoOptions option"
  | Unmount
  | MouseEnter string
  | MouseLeave string
  | SwipeDismiss string

definition fire :: "nat \<Rightarrow> world \<Rightarrow> world" where
  "fire h w =
     (case find (\<lambda>t. handle t = h) (pending w) of
        None \<Rightarrow> w
      | Some t \<Rightarrow>
          let w1 = w\<lparr>pending := filter (\<lambda>t. handle t \<noteq> h) (pending w),
                     now := max (now w) (due t)\<rparr>
          in case callback t of
               ExitRemove i \<Rightarrow> store_update (filter (\<lambda>t. id' t \<noteq> Val i)) w1
             | AutoDismiss i \<Rightarrow> vp_dismissToast i w1)"

fun step :: "event \<Rightarrow> world \<Rightarrow> world" where
  "step (Show opts e) w = snd (sileo_show opts e w)"
| "step (SuccessE opts e) w = snd (sileo_success opts e w)"
| "step (ErrorE opts e) w = snd (sileo_error opts e w)"
| "step (WarningE opts e) w = snd (sileo_warning opts e w)"
| "step (InfoE opts e) w = snd (sileo_info opts e w)"
| "step (ActionE opts e) w = snd (sileo_action opts e w)"
| "step (PromiseE promise opts e) w = snd (sileo_promise promise opts e w)"
| "step (Settle p out e) w = settle p out e w"
| "step (Dismiss i) w = sileo_dismiss i w"
| "step (Clear p) w = sileo_clear p w"
| "step (Fire h) w = fire h w"
| "step (Advance dt) w = w\<lparr>now := now w + max 0 dt\<rparr>"
| "step (Mount p opts) w = (if mounted w then w else mount p opts w)"
| "step (SetProps p opts) w =
     (if mounted w then syncConfig (w\<lparr>props_position := p, props_options := opts\<rparr>) else w)"
| "step Unmount w = (if mounted w then unmount w else w)"
| "step (MouseEnter i) w = (if mounted w then enter i (getHandlers i w) else w)"
| "step (MouseLeave i) w = (if mounted w then leave i (getHandlers i w) else w)"
| "step (SwipeDismiss i) w = (if mounted w then vp_dismissToast i (getHandlers i w) else w)"

definition run :: "event list \<Rightarrow> world \<Rightarrow> world" where
  "run es w = fold step es w"

definition init :: world where
  "init = \<lparr>toasts = [], mounted = False, store_position = TopRight, store_options = None,
           idCounter = 0, now = 0, nextHandle = 1, pending = [], reactions = [],
           vp_toasts = [], activeId = Undefined, hovered = False, timers = [],
           handlersCache = [], props_position = TopRight, props_options = None\<rparr>"

section \<open>SileoToast.vue: the expanded height\<close>

definition HEIGHT :: real where
  "HEIGHT = 40"

definition MIN_EXPAND_RATIO :: real where
  "MIN_EXPAND_RATIO = 2.25"

record View =
  view_title :: "string js"
  view_description :: "content js"
  view_state :: SileoState
  view_icon :: "VNode js"
  view_styles :: "SileoStyles js"
  view_button :: "SileoButton js"
  view_fill :: "string js"

text \<open>\<open>Boolean(x)\<close> for a description (the empty string is falsy, a node is an object)
  and for a button (an object).\<close>

fun truthy_description :: "content js \<Rightarrow> bool" where
  "truthy_description (Val (Text s)) = (s \<noteq> [])"
| "truthy_description (Val (Node n)) = True"
| "truthy_description _ = False"

fun truthy_button :: "SileoButton js \<Rightarrow> bool" where
  "truthy_button (Val b) = True"
| "truthy_button _ = False"

definition hasDesc :: "View \<Rightarrow> bool" where
  "hasDesc v = (truthy_description (view_description v) \<or> truthy_button (view_button v))"

definition minExpanded :: real where
  "minExpanded = HEIGHT * MIN_EXPAND_RATIO"

definition rawExpanded :: "View \<Rightarrow> real \<Rightarrow> real" where
  "rawExpanded v contentHeight =
     (if hasDesc v then max minExpanded (HEIGHT + contentHeight) else minExpanded)"

section \<open>Notions used in the statements\<close>

text \<open>The id \<open>createToast\<close> resolves for an options object.\<close>

definition toast_id :: "InternalSileoOptions \<Rightarrow> string" where
  "toast_id options = orElse (id' options) ''sileo-default''"

text \<open>The record \<open>createToast\<close> builds in a given state of the store.\<close>

definition built :: "InternalSileoOptions \<Rightarrow> env \<Rightarrow> world \<Rightarrow> SileoItem" where
  "built options e w =
     fst (buildSileoItem (mergeOptions (store_options w) options) (toast_id options)
            (position_of (find (\<lambda>t. id' t = Val (toast_id options))
                            (filter (\<lambda>t. \<not> exiting t) (toasts w)))) e w)"

text \<open>The record \<open>updateToast\<close> builds in a given state of the store.\<close>

definition rebuilt :: "string \<Rightarrow> InternalSileoOptions \<Rightarrow> env \<Rightarrow> world \<Rightarrow> SileoItem" where
  "rebuilt i options e w =
     fst (buildSileoItem (mergeOptions (store_options w) options) i
            (position_of (find (\<lambda>t. id' t = Val i) (toasts w))) e w)"

text \<open>The event is a call of \<open>createToast\<close> (through \<open>show\<close> or one of its siblings) for
  the id \<open>i\<close>.\<close>

fun creates :: "string \<Rightarrow> event \<Rightarrow> bool" where
  "creates i (Show opts e) = (toast_id opts = i)"
| "creates i (SuccessE opts e) = (toast_id opts = i)"
| "creates i (ErrorE opts e) = (toast_id opts = i)"
| "creates i (WarningE opts e) = (toast_id opts = i)"
| "creates i (InfoE opts e) = (toast_id opts = i)"
| "creates i (ActionE opts e) = (toast_id opts = i)"
| "creates i _ = False"

text \<open>The arguments with which the event calls \<open>createToast\<close>: \<open>show\<close> passes its
  options on, each sibling passes \<^verbatim>\<open>{ ...opts, state }\<close> with its own state.\<close>

fun create_call :: "event \<Rightarrow> (InternalSileoOptions \<times> env) option" where
  "create_call (Show opts e) = Some (opts, e)"
| "create_call (SuccessE opts e) = Some (opts\<lparr>state := Val Success\<rparr>, e)"
| "create_call (ErrorE opts e) = Some (opts\<lparr>state := Val Error\<rparr>, e)"
| "create_call (WarningE opts e) = Some (opts\<lparr>state := Val Warning\<rparr>, e)"
| "create_call (InfoE opts e) = Some (opts\<lparr>state := Val Info\<rparr>, e)"
| "create_call (ActionE opts e) = Some (opts\<lparr>state := Val Action\<rparr>, e)"
| "create_call ev = None"

text \<open>The event may run \<open>createToast\<close> or \<open>updateToast\<close> for the id \<open>i\<close>: a call of
  \<open>show\<close> or a sibling with that id, and, for the default id, a call of \<open>sileo.promise\<close>
  (its loading toast has no id of its own) or the settling of a promise.\<close>

fun may_rewrite :: "string \<Rightarrow> event \<Rightarrow> bool" where
  "may_rewrite i (PromiseE promise opts e) = (i = ''sileo-default'')"
| "may_rewrite i (Settle p out e) = (i = ''sileo-default'')"
| "may_rewrite i ev = creates i ev"

fun is_auto :: "callback \<Rightarrow> bool" where
  "is_auto (AutoDismiss i) = True"
| "is_auto (ExitRemove i) = False"




text \<open>The bookkeeping of timers: the handles of pending timers are pairwise different and
  were all given out already, and a pending timer is an auto-dismiss timer exactly when
  the viewport's map holds its handle.\<close>

definition timer_table_ok :: "world \<Rightarrow> bool" where
  "timer_table_ok w \<longleftrightarrow>
     distinct (map handle (pending w)) \<and>
     (\<forall>x\<in>set (pending w). handle x < nextHandle w) \<and>
     (\<forall>kh\<in>set (timers w). snd kh < nextHandle w) \<and>
     (\<forall>x\<in>set (pending w). is_auto (callback x) = (handle x \<in> snd ` set (timers w)))"

text \<open>The state of the viewport: while hovered and while unmounted it owns no timer; while
  mounted its copy of the list is the store's list.\<close>

definition viewport_ok :: "world \<Rightarrow> bool" where
  "viewport_ok w \<longleftrightarrow>
     timer_table_ok w \<and> (hovered w \<longrightarrow> timers w = []) \<and> (\<not> mounted w \<longrightarrow> timers w = []) \<and>
     (mounted w \<longrightarrow> vp_toasts w = toasts w)"

text \<open>A record as \<open>buildSileoItem\<close> makes it: its id is a string and its instance id
  holds no colon.\<close>

definition item_ok :: "SileoItem \<Rightarrow> bool" where
  "item_ok t \<longleftrightarrow> CHR '':'' \<notin> set (instanceId t) \<and> id' t = Val (str (id' t))"

text \<open>The event registers a reaction on the promise \<open>p\<close> or settles it.\<close>

fun uses_promise :: "nat \<Rightarrow> event \<Rightarrow> bool" where
  "uses_promise p (PromiseE promise opts e) = (call_operation promise = Inr p)"
| "uses_promise p (Settle q out e) = (q = p)"
| "uses_promise p ev = False"

section \<open>Sample inputs\<close>

definition plain :: InternalSileoOptions where
  "plain = \<lparr>title = Absent, description = Absent, position = Absent, duration = Absent,
            icon = Absent, styles = Absent, fill = Absent, roundness = Absent,
            autopilot = Absent, button = Absent, id' = Absent, state = Absent\<rparr>"

definition env0 :: env where
  "env0 = \<lparr>timestamp = ''t'', random = ''r''\<rparr>"

definition view0 :: View where
  "view0 = \<lparr>view_title = Val ''Saved'', view_description = Val (Text ''ok''),
            view_state = Success, view_icon = Absent, view_styles = Absent,
            view_button = Absent, view_fill = Absent\<rparr>"

definition promise_opts :: SileoPromiseOptions where
  "promise_opts =
     \<lparr>loading = no_options\<lparr>title := Val ''Loading''\<rparr>,
      success = Static (no_options\<lparr>title := Val ''Done''\<rparr>),
      error = Static (no_options\<lparr>title := Val ''Failed''\<rparr>),
      action = None, promise_position = Absent\<rparr>"

definition throwing_opts :: SileoPromiseOptions where
  "throwing_opts = promise_opts\<lparr>success := Dynamic (\<lambda>data. Inl ''boom'')\<rparr>"

section \<open>Constants\<close>

lemma constants [simp]:
  "DEFAULT_DURATION = 6000" "EXIT_DURATION = 600" "AUTO_EXPAND_DELAY = 150"
  "AUTO_COLLAPSE_DELAY = 4000" "HEIGHT = 40" "MIN_EXPAND_RATIO = 2.25" "minExpanded = 90"
  by (simp_all add: DEFAULT_DURATION_def EXIT_DURATION_def AUTO_EXPAND_DELAY_def
      AUTO_COLLAPSE_DELAY_def HEIGHT_def MIN_EXPAND_RATIO_def minExpanded_def)

section \<open>Expanded height of a toast\<close>

text \<open>
  C9. For a toast with describable content (a description or a button), the expanded
  height is the collapsed height 40 plus the measured content height, with a floor of
  2.25 times the collapsed height, that is 90: it is \<open>max 90 (40 + contentHeight)\<close> and
  never below 2.25 times the collapsed height.
\<close>

theorem rawExpanded_floor:
  "hasDesc v \<Longrightarrow>
     rawExpanded v contentHeight = max 90 (40 + contentHeight) \<and>
     rawExpanded v contentHeight = max (2.25 * HEIGHT) (HEIGHT + contentHeight) \<and>
     2.25 * HEIGHT \<le> rawExpanded v contentHeight"
  by (simp add: rawExpanded_def)

text \<open>A short content of height 10 gives the floor 90, a content of height 100 gives 140.\<close>

theorem rawExpanded_floor_witness:
  "hasDesc view0 \<and> rawExpanded view0 10 = 90 \<and> rawExpanded view0 100 = 140"
proof -
  have h: "hasDesc view0" by (simp add: hasDesc_def view0_def)
  show ?thesis using h rawExpanded_floor [OF h, of 10] rawExpanded_floor [OF h, of 100] by simp
qed

section \<open>Autopilot delays\<close>

lemma buildSileoItem_delays:
  "autoExpandDelayMs (fst (buildSileoItem merged i fb e w)) =
     expandDelayMs (resolveAutopilot merged (Some (orElse (duration merged) DEFAULT_DURATION)))"
  "autoCollapseDelayMs (fst (buildSileoItem merged i fb e w)) =
     collapseDelayMs (resolveAutopilot merged (Some (orElse (duration merged) DEFAULT_DURATION)))"
  by (simp_all add: buildSileoItem_def Let_def split: prod.splits)

text \<open>
  C4, as the code has it, for a duration that is not \<open>null\<close>. For a built record with
  resolved duration \<open>dur\<close> (the explicit duration, else 6000 when none is given): if
  \<open>autopilot\<close> is \<open>false\<close> or \<open>dur \<le> 0\<close>, both delays are unset; otherwise the expand delay
  is \<open>autopilot.expand\<close>, by default 150, and the collapse delay is \<open>autopilot.collapse\<close>,
  by default the constant 4000 (the default duration less 2000, whatever the record's
  own duration), each clamped into \<open>[0, dur]\<close>. With duration 6000 and no explicit
  configuration the delays are 150 and 4000.
\<close>

theorem autopilot_delays_of_built_item:
  "duration merged \<noteq> Null \<Longrightarrow>
   (autopilot merged = Val (Flag False) \<or> orElse (duration merged) DEFAULT_DURATION \<le> 0 \<longrightarrow>
      autoExpandDelayMs (fst (buildSileoItem merged i fb e w)) = None \<and>
      autoCollapseDelayMs (fst (buildSileoItem merged i fb e w)) = None) \<and>
   (autopilot merged \<noteq> Val (Flag False) \<and> 0 < orElse (duration merged) DEFAULT_DURATION \<longrightarrow>
      autoExpandDelayMs (fst (buildSileoItem merged i fb e w)) =
        Some (clamp (orElse (duration merged) DEFAULT_DURATION)
                (orElse (cfg_expand (autopilot merged)) 150)) \<and>
      autoCollapseDelayMs (fst (buildSileoItem merged i fb e w)) =
        Some (clamp (orElse (duration merged) DEFAULT_DURATION)
                (orElse (cfg_collapse (autopilot merged)) 4000)) \<and>
      (\<forall>v. 0 \<le> clamp (orElse (duration merged) DEFAULT_DURATION) v \<and>
           clamp (orElse (duration merged) DEFAULT_DURATION) v
             \<le> orElse (duration merged) DEFAULT_DURATION)) \<and>
   (autopilot merged \<noteq> Val (Flag False) \<and> orElse (duration merged) DEFAULT_DURATION = 6000 \<and>
    cfg_expand (autopilot merged) = Undefined \<and> cfg_collapse (autopilot merged) = Undefined \<longrightarrow>
      autoExpandDelayMs (fst (buildSileoItem merged i fb e w)) = Some 150 \<and>
      autoCollapseDelayMs (fst (buildSileoItem merged i fb e w)) = Some 4000)"
  by (auto simp add: buildSileoItem_delays resolveAutopilot_def clamp_def)

text \<open>
  Duration 3000 with \<open>autopilot = {expand: 5000}\<close>: both delays are clamped to 3000.
  No options at all: 150 and 4000. \<open>autopilot = false\<close>: no delay.
\<close>

theorem autopilot_delays_of_built_item_witness:
  "duration (plain\<lparr>duration := Val 3000, autopilot := Val (Config (Val 5000) Absent)\<rparr>)
     = Val 3000 \<and>
   autoExpandDelayMs (fst (buildSileoItem
      (plain\<lparr>duration := Val 3000, autopilot := Val (Config (Val 5000) Absent)\<rparr>)
      ''a'' Undefined env0 init)) = Some 3000 \<and>
   autoCollapseDelayMs (fst (buildSileoItem
      (plain\<lparr>duration := Val 3000, autopilot := Val (Config (Val 5000) Absent)\<rparr>)
      ''a'' Undefined env0 init)) = Some 3000 \<and>
   duration plain = Absent \<and>
   autoExpandDelayMs (fst (buildSileoItem plain ''a'' Undefined env0 init)) = Some 150 \<and>
   autoCollapseDelayMs (fst (buildSileoItem plain ''a'' Undefined env0 init)) = Some 4000 \<and>
   autoExpandDelayMs (fst (buildSileoItem (plain\<lparr>autopilot := Val (Flag False)\<rparr>)
      ''a'' Undefined env0 init)) = None"
  using
    autopilot_delays_of_built_item
      [of "plain\<lparr>duration := Val 3000, autopilot := Val (Config (Val 5000) Absent)\<rparr>"
          "''a''" Undefined env0 init]
    autopilot_delays_of_built_item [of plain "''a''" Undefined env0 init]
    autopilot_delays_of_built_item
      [of "plain\<lparr>autopilot := Val (Flag False)\<rparr>" "''a''" Undefined env0 init]
  by (simp add: plain_def clamp_def)

text \<open>
  The claim's default for the collapse delay, the record's duration less 2000, fails: a
  record of duration 10000 with no autopilot configuration collapses after 4000, not
  after 8000.
\<close>

theorem collapse_default_counterexample:
  "orElse (duration (plain\<lparr>duration := Val 10000\<rparr>)) DEFAULT_DURATION = 10000 \<and>
   autopilot (plain\<lparr>duration := Val 10000\<rparr>) = Absent \<and>
   autoCollapseDelayMs
     (fst (buildSileoItem (plain\<lparr>duration := Val 10000\<rparr>) ''a'' Undefined env0 init))
     = Some 4000 \<and>
   autoCollapseDelayMs
     (fst (buildSileoItem (plain\<lparr>duration := Val 10000\<rparr>) ''a'' Undefined env0 init))
     \<noteq> Some (clamp 10000 (10000 - 2000))"
  by (simp add: buildSileoItem_delays resolveAutopilot_def clamp_def plain_def)

section \<open>What the functions do to each field\<close>

lemma setTimeout_fields [simp]:
  "toasts (snd (setTimeout cb d w)) = toasts w"
  "mounted (snd (setTimeout cb d w)) = mounted w"
  "store_position (snd (setTimeout cb d w)) = store_position w"
  "store_options (snd (setTimeout cb d w)) = store_options w"
  "idCounter (snd (setTimeout cb d w)) = idCounter w"
  "now (snd (setTimeout cb d w)) = now w"
  "reactions (snd (setTimeout cb d w)) = reactions w"
  "vp_toasts (snd (setTimeout cb d w)) = vp_toasts w"
  "activeId (snd (setTimeout cb d w)) = activeId w"
  "hovered (snd (setTimeout cb d w)) = hovered w"
  "timers (snd (setTimeout cb d w)) = timers w"
  "handlersCache (snd (setTimeout cb d w)) = handlersCache w"
  "props_position (snd (setTimeout cb d w)) = props_position w"
  "props_options (snd (setTimeout cb d w)) = props_options w"
  "nextHandle (snd (setTimeout cb d w)) = Suc (nextHandle w)"
  "pending (snd (setTimeout cb d w)) =
     pending w @ [\<lparr>handle = nextHandle w, due = now w + max 0 d, callback = cb\<rparr>]"
  "fst (setTimeout cb d w) = nextHandle w"
  by (simp_all add: setTimeout_def)

lemma schedule_items_fields [simp]:
  "toasts (schedule_items items w) = toasts w"
  "mounted (schedule_items items w) = mounted w"
  "store_position (schedule_items items w) = store_position w"
  "store_options (schedule_items items w) = store_options w"
  "idCounter (schedule_items items w) = idCounter w"
  "now (schedule_items items w) = now w"
  "reactions (schedule_items items w) = reactions w"
  "vp_toasts (schedule_items items w) = vp_toasts w"
  "activeId (schedule_items items w) = activeId w"
  "hovered (schedule_items items w) = hovered w"
  "handlersCache (schedule_items items w) = handlersCache w"
  "props_position (schedule_items items w) = props_position w"
  "props_options (schedule_items items w) = props_options w"
  by (induction items arbitrary: w; simp add: Let_def split: prod.splits; simp add: setTimeout_def)+

lemma schedule_fields [simp]:
  "toasts (schedule items w) = toasts w"
  "mounted (schedule items w) = mounted w"
  "store_position (schedule items w) = store_position w"
  "store_options (schedule items w) = store_options w"
  "idCounter (schedule items w) = idCounter w"
  "now (schedule items w) = now w"
  "reactions (schedule items w) = reactions w"
  "vp_toasts (schedule items w) = vp_toasts w"
  "activeId (schedule items w) = activeId w"
  "hovered (schedule items w) = hovered w"
  "handlersCache (schedule items w) = handlersCache w"
  "props_position (schedule items w) = props_position w"
  "props_options (schedule items w) = props_options w"
  by (simp_all add: schedule_def)

text \<open>The two loops that clear timers, in closed form.\<close>

lemma fold_clearTimeout:
  "fold (\<lambda>(k, t). clearTimeout t) kts w =
     w\<lparr>pending := filter (\<lambda>x. handle x \<notin> snd ` set kts) (pending w)\<rparr>"
proof (induction kts arbitrary: w)
  case Nil
  then show ?case by simp
next
  case (Cons kt kts)
  have flt: "filter (\<lambda>x. handle x \<notin> snd ` set kts) (filter (\<lambda>x. handle x \<noteq> snd kt) (pending w))
        = filter (\<lambda>x. handle x \<notin> snd ` set (kt # kts)) (pending w)"
    by (simp only: filter_filter, rule filter_cong [OF refl]) auto
  have "fold (\<lambda>(k, t). clearTimeout t) (kt # kts) w
      = fold (\<lambda>(k, t). clearTimeout t) kts (clearTimeout (snd kt) w)"
    by (simp add: case_prod_beta)
  also have "\<dots> = (clearTimeout (snd kt) w)
       \<lparr>pending := filter (\<lambda>x. handle x \<notin> snd ` set kts) (pending (clearTimeout (snd kt) w))\<rparr>"
    by (rule Cons.IH)
  also have "\<dots> = w\<lparr>pending := filter (\<lambda>x. handle x \<notin> snd ` set (kt # kts)) (pending w)\<rparr>"
    using flt by (simp add: clearTimeout_def)
  finally show ?case .
qed

lemma clearAllTimers_eq:
  "clearAllTimers w =
     w\<lparr>pending := filter (\<lambda>x. handle x \<notin> snd ` set (timers w)) (pending w), timers := []\<rparr>"
  by (simp add: clearAllTimers_def fold_clearTimeout)

lemma fold_drop_stale:
  "fold (drop_stale K) kts w =
     w\<lparr>pending := filter (\<lambda>x. handle x \<notin> snd ` {kh \<in> set kts. fst kh \<notin> K}) (pending w),
       timers := filter (\<lambda>kh. fst kh \<in> K \<or> fst kh \<notin> fst ` set kts) (timers w)\<rparr>"
proof (induction kts arbitrary: w)
  case Nil
  then show ?case by simp
next
  case (Cons kt kts)
  obtain k h where kt: "kt = (k, h)" by (cases kt)
  have unroll: "fold (drop_stale K) (kt # kts) w = fold (drop_stale K) kts (drop_stale K kt w)"
    by simp
  show ?case
  proof (cases "k \<in> K")
    case True
    have p: "{kh \<in> set (kt # kts). fst kh \<notin> K} = {kh \<in> set kts. fst kh \<notin> K}"
      using True kt by auto
    have t: "filter (\<lambda>kh. fst kh \<in> K \<or> fst kh \<notin> fst ` set (kt # kts)) (timers w)
           = filter (\<lambda>kh. fst kh \<in> K \<or> fst kh \<notin> fst ` set kts) (timers w)"
      using True kt by (intro filter_cong) auto
    have "drop_stale K kt w = w" using True kt by (simp add: drop_stale_def)
    then show ?thesis
      unfolding unroll p t by (simp only: Cons.IH)
  next
    case False
    have p: "filter (\<lambda>x. handle x \<notin> snd ` {kh \<in> set kts. fst kh \<notin> K})
               (filter (\<lambda>x. handle x \<noteq> h) (pending w))
           = filter (\<lambda>x. handle x \<notin> snd ` {kh \<in> set (kt # kts). fst kh \<notin> K}) (pending w)"
      using False kt by (simp only: filter_filter, intro filter_cong [OF refl]) force
    have t: "filter (\<lambda>kh. fst kh \<in> K \<or> fst kh \<notin> fst ` set kts)
               (filter (\<lambda>(k', h'). k' \<noteq> k) (timers w))
           = filter (\<lambda>kh. fst kh \<in> K \<or> fst kh \<notin> fst ` set (kt # kts)) (timers w)"
      using False kt by (simp only: filter_filter, intro filter_cong [OF refl]) force
    have d: "drop_stale K kt w =
               w\<lparr>pending := filter (\<lambda>x. handle x \<noteq> h) (pending w),
                 timers := filter (\<lambda>(k', h'). k' \<noteq> k) (timers w)\<rparr>"
      using False kt by (simp add: drop_stale_def clearTimeout_def)
    have "fold (drop_stale K) (kt # kts) w = fold (drop_stale K) kts (drop_stale K kt w)"
      by (rule unroll)
    also have "\<dots> = (drop_stale K kt w)
        \<lparr>pending := filter (\<lambda>x. handle x \<notin> snd ` {kh \<in> set kts. fst kh \<notin> K})
                      (pending (drop_stale K kt w)),
         timers := filter (\<lambda>kh. fst kh \<in> K \<or> fst kh \<notin> fst ` set kts)
                      (timers (drop_stale K kt w))\<rparr>"
      by (rule Cons.IH)
    also have "\<dots> = w
        \<lparr>pending := filter (\<lambda>x. handle x \<notin> snd ` {kh \<in> set (kt # kts). fst kh \<notin> K}) (pending w),
         timers := filter (\<lambda>kh. fst kh \<in> K \<or> fst kh \<notin> fst ` set (kt # kts)) (timers w)\<rparr>"
      unfolding d using p t by simp
    finally show ?thesis .
  qed
qed

lemma drop_stale_timers:
  "fold (drop_stale K) (timers w) w =
     w\<lparr>pending := filter (\<lambda>x. handle x \<notin> snd ` {kh \<in> set (timers w). fst kh \<notin> K}) (pending w),
       timers := filter (\<lambda>kh. fst kh \<in> K) (timers w)\<rparr>"
proof -
  have "filter (\<lambda>kh. fst kh \<in> K \<or> fst kh \<notin> fst ` set (timers w)) (timers w)
      = filter (\<lambda>kh. fst kh \<in> K) (timers w)"
    by (intro filter_cong) auto
  then show ?thesis by (simp add: fold_drop_stale)
qed

lemma listener_eq:
  "listener next w =
     schedule next
       (w\<lparr>vp_toasts := next,
          pending := filter (\<lambda>x. handle x \<notin> snd ` {kh \<in> set (timers w). fst kh \<notin> set (map timeoutKey next)})
                       (pending w),
          timers := filter (\<lambda>kh. fst kh \<in> set (map timeoutKey next)) (timers w),
          handlersCache := filter (\<lambda>i. i \<in> set (map (\<lambda>t. str (id' t)) next)) (handlersCache w),
          activeId := latest next\<rparr>)"
  unfolding listener_def Let_def
  by (simp add: drop_stale_timers [of _ "w\<lparr>vp_toasts := next\<rparr>", simplified])

lemma listener_fields [simp]:
  "toasts (listener next w) = toasts w"
  "mounted (listener next w) = mounted w"
  "store_position (listener next w) = store_position w"
  "store_options (listener next w) = store_options w"
  "idCounter (listener next w) = idCounter w"
  "now (listener next w) = now w"
  "reactions (listener next w) = reactions w"
  "vp_toasts (listener next w) = next"
  "activeId (listener next w) = latest next"
  "hovered (listener next w) = hovered w"
  "props_position (listener next w) = props_position w"
  "props_options (listener next w) = props_options w"
  by (simp_all add: listener_eq)

lemma store_update_fields [simp]:
  "toasts (store_update fn w) = fn (toasts w)"
  "mounted (store_update fn w) = mounted w"
  "store_position (store_update fn w) = store_position w"
  "store_options (store_update fn w) = store_options w"
  "idCounter (store_update fn w) = idCounter w"
  "now (store_update fn w) = now w"
  "reactions (store_update fn w) = reactions w"
  "hovered (store_update fn w) = hovered w"
  "props_position (store_update fn w) = props_position w"
  "props_options (store_update fn w) = props_options w"
  by (simp_all add: store_update_def store_emit_def)

lemma store_update_vp_toasts [simp]:
  "vp_toasts (store_update fn w) = (if mounted w then fn (toasts w) else vp_toasts w)"
  by (simp add: store_update_def store_emit_def)

lemma vp_dismissToast_eq: "vp_dismissToast = dismissToast"
  unfolding vp_dismissToast_def dismissToast_def EXIT_DURATION_def by simp

lemma dismissToast_fields [simp]:
  "mounted (dismissToast i w) = mounted w"
  "store_position (dismissToast i w) = store_position w"
  "store_options (dismissToast i w) = store_options w"
  "idCounter (dismissToast i w) = idCounter w"
  "now (dismissToast i w) = now w"
  "reactions (dismissToast i w) = reactions w"
  "hovered (dismissToast i w) = hovered w"
  "props_position (dismissToast i w) = props_position w"
  "props_options (dismissToast i w) = props_options w"
  by (simp_all add: dismissToast_def Let_def split: option.splits)

lemma dismissToast_toasts:
  "toasts (dismissToast i w) =
     (if \<exists>t. find (\<lambda>t. id' t = Val i) (toasts w) = Some t \<and> \<not> exiting t
      then map (\<lambda>t. if id' t = Val i then t\<lparr>exiting := True\<rparr> else t) (toasts w)
      else toasts w)"
  by (auto simp add: dismissToast_def Let_def split: option.splits)

lemma generateId_fields [simp]:
  "toasts (snd (generateId e w)) = toasts w"
  "mounted (snd (generateId e w)) = mounted w"
  "store_position (snd (generateId e w)) = store_position w"
  "store_options (snd (generateId e w)) = store_options w"
  "idCounter (snd (generateId e w)) = Suc (idCounter w)"
  "now (snd (generateId e w)) = now w"
  "reactions (snd (generateId e w)) = reactions w"
  "hovered (snd (generateId e w)) = hovered w"
  "vp_toasts (snd (generateId e w)) = vp_toasts w"
  "timers (snd (generateId e w)) = timers w"
  "pending (snd (generateId e w)) = pending w"
  "nextHandle (snd (generateId e w)) = nextHandle w"
  "props_position (snd (generateId e w)) = props_position w"
  "props_options (snd (generateId e w)) = props_options w"
  by (simp_all add: generateId_def)

lemma buildSileoItem_snd [simp]:
  "snd (buildSileoItem merged i fb e w) = snd (generateId e w)"
  by (simp add: buildSileoItem_def Let_def split: prod.splits)

lemma buildSileoItem_item [simp]:
  "id' (fst (buildSileoItem merged i fb e w)) = Val i"
  "exiting (fst (buildSileoItem merged i fb e w)) = False"
  "state (fst (buildSileoItem merged i fb e w)) = state merged"
  "duration (fst (buildSileoItem merged i fb e w)) = duration merged"
  "instanceId (fst (buildSileoItem merged i fb e w)) = fst (generateId e w)"
  "position (fst (buildSileoItem merged i fb e w)) =
     Val (orElse (position merged) (orElse fb (store_position w)))"
  by (simp_all add: buildSileoItem_def Let_def split: prod.splits)

lemma mergeOptions_id [simp]:
  "id' (mergeOptions so options) = id' options"
  "state (mergeOptions so options) = state options"
  by (simp_all add: mergeOptions_def)

lemma find_live:
  "find P (filter Q xs) = find (\<lambda>x. Q x \<and> P x) xs"
  by (induction xs) auto

lemma find_SomeD: "find P xs = Some x \<Longrightarrow> x \<in> set xs \<and> P x"
  by (induction xs) (auto split: if_splits)

lemma find_distinct:
  "distinct (map f xs) \<Longrightarrow> x \<in> set xs \<Longrightarrow> find (\<lambda>y. f y = f x) xs = Some x"
  by (induction xs) (auto simp add: image_iff)

lemma find_by_id:
  assumes "distinct (map id' ts)" and "t \<in> set ts" and "id' t = Val i"
  shows "find (\<lambda>t. id' t = Val i) ts = Some t"
  using find_distinct [of id' ts t] assms by simp

lemma find_conj: "find P xs = Some x \<Longrightarrow> Q x \<Longrightarrow> find (\<lambda>t. Q t \<and> P t) xs = Some x"
  by (induction xs) (auto split: if_splits)

lemma createToast_snd:
  "snd (createToast options e w) =
     (if \<exists>t\<in>set (toasts w). \<not> exiting t \<and> id' t = Val (toast_id options)
      then store_update (map (\<lambda>t. if id' t = Val (toast_id options) then built options e w else t))
             (snd (generateId e w))
      else store_update (\<lambda>p. filter (\<lambda>t. id' t \<noteq> Val (toast_id options)) p @ [built options e w])
             (snd (generateId e w)))"
proof -
  have i: "orElse (id' (mergeOptions (store_options w) options)) ''sileo-default''
             = toast_id options"
    by (simp add: toast_id_def)
  have b: "fst (buildSileoItem (mergeOptions (store_options w) options) (toast_id options)
             (position_of (find (\<lambda>t. id' t = Val (toast_id options))
                (filter (\<lambda>t. \<not> exiting t) (toasts w)))) e w) = built options e w"
    by (simp add: built_def)
  show ?thesis
    unfolding createToast_def Let_def i case_prod_beta b
    by (auto simp add: find_live find_None_iff split: option.splits dest: find_SomeD)
qed

lemma createToast_fst:
  "fst (createToast options e w) =
     (toast_id options,
      orElse (duration (mergeOptions (store_options w) options)) DEFAULT_DURATION)"
  by (simp add: createToast_def Let_def toast_id_def case_prod_beta split: option.splits)

lemma built_item [simp]:
  "id' (built options e w) = Val (toast_id options)"
  "exiting (built options e w) = False"
  "state (built options e w) = state options"
  by (simp_all add: built_def)

lemma updateToast_eq:
  "updateToast i options e w =
     (if \<exists>t\<in>set (toasts w). id' t = Val i
      then store_update (map (\<lambda>t. if id' t = Val i then rebuilt i options e w else t))
             (snd (generateId e w))
      else w)"
proof (cases "find (\<lambda>t. id' t = Val i) (toasts w)")
  case None
  then have "\<not> (\<exists>t\<in>set (toasts w). id' t = Val i)"
    by (auto simp add: find_None_iff)
  then show ?thesis
    unfolding updateToast_def None by simp
next
  case (Some x)
  then have "\<exists>t\<in>set (toasts w). id' t = Val i"
    by (auto dest: find_SomeD)
  then show ?thesis
    unfolding updateToast_def Let_def case_prod_beta rebuilt_def Some
    by (simp cong: if_cong)
qed

lemma rebuilt_item [simp]:
  "id' (rebuilt i options e w) = Val i"
  "exiting (rebuilt i options e w) = False"
  "state (rebuilt i options e w) = state options"
  by (simp_all add: rebuilt_def)


lemma clearAllTimers_fields [simp]:
  "toasts (clearAllTimers w) = toasts w"
  "mounted (clearAllTimers w) = mounted w"
  "store_position (clearAllTimers w) = store_position w"
  "store_options (clearAllTimers w) = store_options w"
  "idCounter (clearAllTimers w) = idCounter w"
  "now (clearAllTimers w) = now w"
  "reactions (clearAllTimers w) = reactions w"
  "vp_toasts (clearAllTimers w) = vp_toasts w"
  "activeId (clearAllTimers w) = activeId w"
  "hovered (clearAllTimers w) = hovered w"
  "handlersCache (clearAllTimers w) = handlersCache w"
  "props_position (clearAllTimers w) = props_position w"
  "props_options (clearAllTimers w) = props_options w"
  "nextHandle (clearAllTimers w) = nextHandle w"
  "timers (clearAllTimers w) = []"
  "pending (clearAllTimers w) = filter (\<lambda>x. handle x \<notin> snd ` set (timers w)) (pending w)"
  by (simp_all add: clearAllTimers_eq)

lemma getHandlers_fields [simp]:
  "toasts (getHandlers i w) = toasts w"
  "mounted (getHandlers i w) = mounted w"
  "store_position (getHandlers i w) = store_position w"
  "store_options (getHandlers i w) = store_options w"
  "idCounter (getHandlers i w) = idCounter w"
  "now (getHandlers i w) = now w"
  "reactions (getHandlers i w) = reactions w"
  "vp_toasts (getHandlers i w) = vp_toasts w"
  "activeId (getHandlers i w) = activeId w"
  "hovered (getHandlers i w) = hovered w"
  "props_position (getHandlers i w) = props_position w"
  "props_options (getHandlers i w) = props_options w"
  "nextHandle (getHandlers i w) = nextHandle w"
  "timers (getHandlers i w) = timers w"
  "pending (getHandlers i w) = pending w"
  by (simp_all add: getHandlers_def)

lemma enter_fields [simp]:
  "toasts (enter i w) = toasts w"
  "mounted (enter i w) = mounted w"
  "store_position (enter i w) = store_position w"
  "store_options (enter i w) = store_options w"
  "idCounter (enter i w) = idCounter w"
  "now (enter i w) = now w"
  "reactions (enter i w) = reactions w"
  "vp_toasts (enter i w) = vp_toasts w"
  "hovered (enter i w) = True"
  "nextHandle (enter i w) = nextHandle w"
  by (simp_all add: enter_def Let_def)

lemma leave_fields [simp]:
  "toasts (leave i w) = toasts w"
  "mounted (leave i w) = mounted w"
  "store_position (leave i w) = store_position w"
  "store_options (leave i w) = store_options w"
  "idCounter (leave i w) = idCounter w"
  "now (leave i w) = now w"
  "reactions (leave i w) = reactions w"
  "vp_toasts (leave i w) = vp_toasts w"
  "hovered (leave i w) = False"
  by (simp_all add: leave_def Let_def schedule_def)

lemma mount_fields [simp]:
  "toasts (mount p opts w) = toasts w"
  "mounted (mount p opts w) = True"
  "idCounter (mount p opts w) = idCounter w"
  "now (mount p opts w) = now w"
  "reactions (mount p opts w) = reactions w"
  "vp_toasts (mount p opts w) = toasts w"
  "hovered (mount p opts w) = False"
  "timers (mount p opts w) = []"
  "pending (mount p opts w) = pending w"
  "nextHandle (mount p opts w) = nextHandle w"
  by (simp_all add: mount_def syncConfig_def)

lemma unmount_fields [simp]:
  "toasts (unmount w) = toasts w"
  "mounted (unmount w) = False"
  "idCounter (unmount w) = idCounter w"
  "now (unmount w) = now w"
  "reactions (unmount w) = reactions w"
  "vp_toasts (unmount w) = vp_toasts w"
  "hovered (unmount w) = hovered w"
  "timers (unmount w) = []"
  "pending (unmount w) = filter (\<lambda>x. handle x \<notin> snd ` set (timers w)) (pending w)"
  "nextHandle (unmount w) = nextHandle w"
  by (simp_all add: unmount_def)

lemma syncConfig_fields [simp]:
  "toasts (syncConfig w) = toasts w"
  "mounted (syncConfig w) = mounted w"
  "idCounter (syncConfig w) = idCounter w"
  "now (syncConfig w) = now w"
  "reactions (syncConfig w) = reactions w"
  "vp_toasts (syncConfig w) = vp_toasts w"
  "hovered (syncConfig w) = hovered w"
  "timers (syncConfig w) = timers w"
  "pending (syncConfig w) = pending w"
  "nextHandle (syncConfig w) = nextHandle w"
  by (simp_all add: syncConfig_def)

lemma updateToast_fields [simp]:
  "mounted (updateToast i options e w) = mounted w"
  "store_position (updateToast i options e w) = store_position w"
  "store_options (updateToast i options e w) = store_options w"
  "now (updateToast i options e w) = now w"
  "reactions (updateToast i options e w) = reactions w"
  "hovered (updateToast i options e w) = hovered w"
  by (simp_all add: updateToast_eq)

lemma createToast_fields [simp]:
  "mounted (snd (createToast options e w)) = mounted w"
  "store_position (snd (createToast options e w)) = store_position w"
  "store_options (snd (createToast options e w)) = store_options w"
  "now (snd (createToast options e w)) = now w"
  "reactions (snd (createToast options e w)) = reactions w"
  "hovered (snd (createToast options e w)) = hovered w"
  by (simp_all add: createToast_snd)

lemma createToast_toasts:
  "toasts (snd (createToast options e w)) =
     (if \<exists>t\<in>set (toasts w). \<not> exiting t \<and> id' t = Val (toast_id options)
      then map (\<lambda>t. if id' t = Val (toast_id options) then built options e w else t) (toasts w)
      else filter (\<lambda>t. id' t \<noteq> Val (toast_id options)) (toasts w) @ [built options e w])"
  by (auto simp add: createToast_snd)

lemma updateToast_toasts:
  "toasts (updateToast i options e w) =
     (if \<exists>t\<in>set (toasts w). id' t = Val i
      then map (\<lambda>t. if id' t = Val i then rebuilt i options e w else t) (toasts w)
      else toasts w)"
  by (simp add: updateToast_eq)

text \<open>What a call of \<open>show\<close> or a sibling does to the registry.\<close>

lemma creates_createToast:
  assumes "creates i ev"
  shows "\<exists>options e. toast_id options = i \<and> step ev w = snd (createToast options e w)"
proof -
  have s: "toast_id (options\<lparr>state := st\<rparr>) = toast_id options" for options st
    by (simp add: toast_id_def)
  show ?thesis
  proof (cases ev)
    case (Show opts e)
    with assms have "toast_id opts = i \<and> step ev w = snd (createToast opts e w)"
      by (simp add: sileo_show_def case_prod_beta)
    then show ?thesis by blast
  next
    case (SuccessE opts e)
    with assms have "toast_id (opts\<lparr>state := Val Success\<rparr>) = i \<and>
        step ev w = snd (createToast (opts\<lparr>state := Val Success\<rparr>) e w)"
      by (simp add: sileo_success_def case_prod_beta s)
    then show ?thesis by blast
  next
    case (ErrorE opts e)
    with assms have "toast_id (opts\<lparr>state := Val Error\<rparr>) = i \<and>
        step ev w = snd (createToast (opts\<lparr>state := Val Error\<rparr>) e w)"
      by (simp add: sileo_error_def case_prod_beta s)
    then show ?thesis by blast
  next
    case (WarningE opts e)
    with assms have "toast_id (opts\<lparr>state := Val Warning\<rparr>) = i \<and>
        step ev w = snd (createToast (opts\<lparr>state := Val Warning\<rparr>) e w)"
      by (simp add: sileo_warning_def case_prod_beta s)
    then show ?thesis by blast
  next
    case (InfoE opts e)
    with assms have "toast_id (opts\<lparr>state := Val Info\<rparr>) = i \<and>
        step ev w = snd (createToast (opts\<lparr>state := Val Info\<rparr>) e w)"
      by (simp add: sileo_info_def case_prod_beta s)
    then show ?thesis by blast
  next
    case (ActionE opts e)
    with assms have "toast_id (opts\<lparr>state := Val Action\<rparr>) = i \<and>
        step ev w = snd (createToast (opts\<lparr>state := Val Action\<rparr>) e w)"
      by (simp add: sileo_action_def case_prod_beta s)
    then show ?thesis by blast
  qed (use assms in simp_all)
qed

lemma creates_step:
  assumes "creates i ev"
  shows "\<exists>item. id' item = Val i \<and> \<not> exiting item \<and>
           toasts (step ev w) =
             (if \<exists>t\<in>set (toasts w). \<not> exiting t \<and> id' t = Val i
              then map (\<lambda>t. if id' t = Val i then item else t) (toasts w)
              else filter (\<lambda>t. id' t \<noteq> Val i) (toasts w) @ [item])"
proof -
  from creates_createToast [OF assms] obtain options e
    where i: "toast_id options = i" and st: "step ev w = snd (createToast options e w)"
    by blast
  have "id' (built options e w) = Val i \<and> \<not> exiting (built options e w) \<and>
        toasts (step ev w) =
          (if \<exists>t\<in>set (toasts w). \<not> exiting t \<and> id' t = Val i
           then map (\<lambda>t. if id' t = Val i then built options e w else t) (toasts w)
           else filter (\<lambda>t. id' t \<noteq> Val i) (toasts w) @ [built options e w])"
    unfolding st createToast_toasts i [symmetric] by simp
  then show ?thesis by blast
qed

section \<open>Runs\<close>

lemma run_simps [simp]:
  "run [] w = w"
  "run (ev # es) w = run es (step ev w)"
  "run (es @ es') w = run es' (run es w)"
  by (simp_all add: run_def)

lemma fold_invariant:
  assumes "\<And>x s. P s \<Longrightarrow> P (f x s)" and "P s"
  shows "P (fold f xs s)"
  using assms(2) by (induction xs arbitrary: s) (auto intro: assms(1))

lemma run_invariant:
  assumes "\<And>ev w. P w \<Longrightarrow> P (step ev w)" and "P w"
  shows "P (run es w)"
  unfolding run_def using assms by (rule fold_invariant)

section \<open>The registry holds one record per id\<close>

lemma react_cases:
  "react i opts out e w = w \<or> (\<exists>options. react i opts out e w = updateToast i options e w)"
  by (auto simp add: react_def onFulfilled_def onRejected_def
      split: outcome.splits option.splits sum.splits)

lemma ids_mark [simp]:
  "map id' (map (\<lambda>t. if id' t = Val i then t\<lparr>exiting := True\<rparr> else t) ts) = map id' ts"
  by (induction ts) auto

lemma ids_replace:
  "id' item = Val i \<Longrightarrow> map id' (map (\<lambda>t. if id' t = Val i then item else t) ts) = map id' ts"
  by (induction ts) auto

lemma ids_mark_comp [simp]:
  "map (id' \<circ> (\<lambda>t. if id' t = Val i then t\<lparr>exiting := True\<rparr> else t)) ts = map id' ts"
  by (induction ts) auto

lemma ids_replace_comp:
  "id' item = Val i \<Longrightarrow> map (id' \<circ> (\<lambda>t. if id' t = Val i then item else t)) ts = map id' ts"
  by (induction ts) auto

lemma distinct_append_item:
  "id' item = Val i \<Longrightarrow> distinct (map id' ts) \<Longrightarrow>
     distinct (map id' (filter (\<lambda>t. id' t \<noteq> Val i) ts @ [item]))"
  by (auto simp add: distinct_map_filter)

lemma createToast_distinct:
  "distinct (map id' (toasts w)) \<Longrightarrow> distinct (map id' (toasts (snd (createToast options e w))))"
  by (auto simp add: createToast_toasts ids_replace_comp distinct_map_filter)

lemma updateToast_distinct:
  "distinct (map id' (toasts w)) \<Longrightarrow> distinct (map id' (toasts (updateToast i options e w)))"
  by (simp add: updateToast_toasts ids_replace_comp)

lemma dismissToast_ids [simp]:
  "map id' (toasts (dismissToast i w)) = map id' (toasts w)"
  by (simp add: dismissToast_toasts)

lemma react_distinct:
  "distinct (map id' (toasts w)) \<Longrightarrow> distinct (map id' (toasts (react i opts out e w)))"
  using react_cases [of i opts out e w] by (auto simp add: updateToast_distinct)

lemma settle_distinct:
  assumes "distinct (map id' (toasts w))"
  shows "distinct (map id' (toasts (settle p out e w)))"
  unfolding settle_def
proof (rule fold_invariant)
  show "distinct (map id' (toasts (w\<lparr>reactions := filter (\<lambda>(q, i, opts). q \<noteq> p) (reactions w)\<rparr>)))"
    using assms by simp
next
  fix x and s :: world
  assume "distinct (map id' (toasts s))"
  then show "distinct (map id' (toasts ((case x of (q, i, opts) \<Rightarrow>
      \<lambda>w'. if q = p then react i opts out e w' else w') s)))"
    by (cases x) (simp add: react_distinct)
qed

lemma fire_toasts:
  "toasts (fire h w) =
     (case find (\<lambda>t. handle t = h) (pending w) of
        None \<Rightarrow> toasts w
      | Some t \<Rightarrow>
          (case callback t of
             ExitRemove i \<Rightarrow> filter (\<lambda>t. id' t \<noteq> Val i) (toasts w)
           | AutoDismiss i \<Rightarrow>
               (if \<exists>t. find (\<lambda>t. id' t = Val i) (toasts w) = Some t \<and> \<not> exiting t
                then map (\<lambda>t. if id' t = Val i then t\<lparr>exiting := True\<rparr> else t) (toasts w)
                else toasts w)))"
  by (auto simp add: fire_def Let_def vp_dismissToast_eq dismissToast_toasts
      split: option.splits callback.splits)

lemma step_distinct:
  assumes "distinct (map id' (toasts w))"
  shows "distinct (map id' (toasts (step ev w)))"
proof (cases ev)
  case (PromiseE promise opts e)
  then show ?thesis
    using assms createToast_distinct [of w "loading_options opts" e]
    by (simp add: sileo_promise_def case_prod_beta split: sum.splits)
next
  case (Settle p out e)
  then show ?thesis using assms by (simp add: settle_distinct)
next
  case (Dismiss i)
  then show ?thesis using assms by (simp add: sileo_dismiss_def)
next
  case (Clear p)
  then show ?thesis using assms by (cases p) (simp_all add: distinct_map_filter)
next
  case (Fire h)
  then show ?thesis using assms
    by (simp add: fire_toasts distinct_map_filter split: option.splits callback.splits)
next
  case (SwipeDismiss i)
  then show ?thesis using assms by (simp add: vp_dismissToast_eq)
next
  case (Show opts e)
  then have "creates (toast_id opts) ev" by simp
  from creates_createToast [OF this, of w] assms show ?thesis
    by (auto simp add: createToast_distinct)
next
  case (SuccessE opts e)
  then have "creates (toast_id opts) ev" by simp
  from creates_createToast [OF this, of w] assms show ?thesis
    by (auto simp add: createToast_distinct)
next
  case (ErrorE opts e)
  then have "creates (toast_id opts) ev" by simp
  from creates_createToast [OF this, of w] assms show ?thesis
    by (auto simp add: createToast_distinct)
next
  case (WarningE opts e)
  then have "creates (toast_id opts) ev" by simp
  from creates_createToast [OF this, of w] assms show ?thesis
    by (auto simp add: createToast_distinct)
next
  case (InfoE opts e)
  then have "creates (toast_id opts) ev" by simp
  from creates_createToast [OF this, of w] assms show ?thesis
    by (auto simp add: createToast_distinct)
next
  case (ActionE opts e)
  then have "creates (toast_id opts) ev" by simp
  from creates_createToast [OF this, of w] assms show ?thesis
    by (auto simp add: createToast_distinct)
qed (use assms in simp_all)

lemma reachable_distinct: "distinct (map id' (toasts (run es init)))"
  by (rule run_invariant) (simp_all add: step_distinct init_def)

lemma filter_absent: "v \<notin> f ` set xs \<Longrightarrow> filter (\<lambda>x. f x = v) xs = []"
  by (induction xs) auto

lemma distinct_count_le:
  "distinct (map f xs) \<Longrightarrow> length (filter (\<lambda>x. f x = v) xs) \<le> 1"
proof (induction xs)
  case Nil
  then show ?case by simp
next
  case (Cons a xs)
  show ?case
  proof (cases "f a = v")
    case True
    with Cons.prems have "v \<notin> f ` set xs" by auto
    then show ?thesis using True by (simp add: filter_absent)
  next
    case False
    with Cons show ?thesis by simp
  qed
qed

lemma distinct_count_one:
  "distinct (map f xs) \<Longrightarrow> x \<in> set xs \<Longrightarrow> f x = v \<Longrightarrow> length (filter (\<lambda>x. f x = v) xs) = 1"
proof (induction xs)
  case Nil
  then show ?case by simp
next
  case (Cons a xs)
  show ?case
  proof (cases "f a = v")
    case True
    with Cons.prems have "v \<notin> f ` set xs" by auto
    then show ?thesis using True by (simp add: filter_absent)
  next
    case False
    with Cons show ?thesis by auto
  qed
qed

lemma creates_one_live:
  assumes "distinct (map id' (toasts w))" and "creates i ev"
  shows "length (filter (\<lambda>t. id' t = Val i \<and> \<not> exiting t) (toasts (step ev w))) = 1"
proof -
  from creates_step [OF assms(2), of w] obtain item
    where item: "id' item = Val i" "\<not> exiting item"
      and st: "toasts (step ev w) =
             (if \<exists>t\<in>set (toasts w). \<not> exiting t \<and> id' t = Val i
              then map (\<lambda>t. if id' t = Val i then item else t) (toasts w)
              else filter (\<lambda>t. id' t \<noteq> Val i) (toasts w) @ [item])"
    by blast
  show ?thesis
  proof (cases "\<exists>t\<in>set (toasts w). \<not> exiting t \<and> id' t = Val i")
    case True
    then obtain t where t: "t \<in> set (toasts w)" "id' t = Val i" by blast
    have st': "toasts (step ev w) = map (\<lambda>t. if id' t = Val i then item else t) (toasts w)"
      unfolding st by (rule if_P [OF True])
    have "filter (\<lambda>t. id' t = Val i \<and> \<not> exiting t)
            (map (\<lambda>t. if id' t = Val i then item else t) ts)
          = map (\<lambda>t. item) (filter (\<lambda>t. id' t = Val i) ts)" for ts
      using item by (induction ts) auto
    then show ?thesis
      unfolding st' using distinct_count_one [OF assms(1) t] by simp
  next
    case False
    have st': "toasts (step ev w) = filter (\<lambda>t. id' t \<noteq> Val i) (toasts w) @ [item]"
      unfolding st by (rule if_not_P [OF False])
    have "filter (\<lambda>t. id' t = Val i \<and> \<not> exiting t) (filter (\<lambda>t. id' t \<noteq> Val i) ts) = []" for ts
      by (induction ts) auto
    then show ?thesis unfolding st' using item by simp
  qed
qed

text \<open>A call of \<open>show\<close> or of a sibling is the call of \<open>createToast\<close> with those
  arguments.\<close>

lemma create_call_step:
  "create_call ev = Some (options, e) \<Longrightarrow> step ev w = snd (createToast options e w)"
  by (cases ev)
     (auto simp add: sileo_show_def sileo_success_def sileo_error_def sileo_warning_def
        sileo_info_def sileo_action_def case_prod_beta)

lemma creates_create_call:
  "creates i ev \<longleftrightarrow> (\<exists>options e. create_call ev = Some (options, e) \<and> toast_id options = i)"
  by (cases ev) (auto simp add: toast_id_def)

text \<open>In a registry with one record per id, a call whose id matches the live record \<open>old\<close>
  builds its record with the position of \<open>old\<close> as fallback and maps it over the list.\<close>

lemma built_replacing:
  assumes "distinct (map id' (toasts w))" and "old \<in> set (toasts w)"
    and "id' old = Val (toast_id options)" and "\<not> exiting old"
  shows "built options e w =
           fst (buildSileoItem (mergeOptions (store_options w) options) (toast_id options)
                  (get (position old)) e w)"
proof -
  have "find (\<lambda>t. id' t = Val (toast_id options)) (toasts w) = Some old"
    using assms(1-3) by (rule find_by_id)
  then have "find (\<lambda>t. \<not> exiting t \<and> id' t = Val (toast_id options)) (toasts w) = Some old"
    using assms(4) by (intro find_conj) simp_all
  then show ?thesis by (simp add: built_def find_live)
qed

lemma createToast_replaces:
  assumes "distinct (map id' (toasts w))" and "old \<in> set (toasts w)"
    and "id' old = Val (toast_id options)" and "\<not> exiting old"
  shows "toasts (snd (createToast options e w)) =
           map (\<lambda>t. if id' t = Val (toast_id options)
                    then fst (buildSileoItem (mergeOptions (store_options w) options)
                                (toast_id options) (get (position old)) e w)
                    else t) (toasts w)"
proof -
  have live: "\<exists>t\<in>set (toasts w). \<not> exiting t \<and> id' t = Val (toast_id options)"
    using assms(2-4) by blast
  show ?thesis
    unfolding createToast_toasts built_replacing [OF assms] by (simp only: live if_True)
qed

text \<open>The fields of the record that \<open>buildSileoItem\<close> makes from merged options.\<close>

lemma buildSileoItem_payload:
  "title (fst (buildSileoItem merged i fb e w)) = title merged"
  "description (fst (buildSileoItem merged i fb e w)) = description merged"
  "instanceId (fst (buildSileoItem merged i fb e w))
     = nat_to_string (Suc (idCounter w)) @ ''-'' @ timestamp e @ ''-'' @ random e"
  by (simp_all add: buildSileoItem_def generateId_def Let_def split: prod.splits)

lemma mergeOptions_payload:
  "title (mergeOptions so options) = spread (title (options_of so)) (title options)"
  "description (mergeOptions so options) = spread (description (options_of so)) (description options)"
  "position (mergeOptions so options) = spread (position (options_of so)) (position options)"
  "duration (mergeOptions so options) = spread (duration (options_of so)) (duration options)"
  by (simp_all add: mergeOptions_def)


lemma new_record:
  "id' (fst (buildSileoItem (mergeOptions so options) i fb e w)) = Val i"
  "\<not> exiting (fst (buildSileoItem (mergeOptions so options) i fb e w))"
  "state (fst (buildSileoItem (mergeOptions so options) i fb e w)) = state options"
  "instanceId (fst (buildSileoItem (mergeOptions so options) i fb e w))
     = nat_to_string (Suc (idCounter w)) @ ''-'' @ timestamp e @ ''-'' @ random e"
  "title (fst (buildSileoItem (mergeOptions so options) i fb e w))
     = spread (title (options_of so)) (title options)"
  "description (fst (buildSileoItem (mergeOptions so options) i fb e w))
     = spread (description (options_of so)) (description options)"
  "duration (fst (buildSileoItem (mergeOptions so options) i fb e w))
     = spread (duration (options_of so)) (duration options)"
  "position (fst (buildSileoItem (mergeOptions so options) i fb e w))
     = Val (orElse (spread (position (options_of so)) (position options))
              (orElse fb (store_position w)))"
  by (simp_all add: buildSileoItem_payload mergeOptions_payload generateId_def)

lemma filter_replaced:
  assumes "distinct (map f xs)" and "x \<in> set xs" and "f x = v" and "f item = v"
  shows "filter (\<lambda>t. f t = v) (map (\<lambda>t. if f t = v then item else t) xs) = [item]"
  using assms
proof (induction xs)
  case Nil
  then show ?case by simp
next
  case (Cons a xs)
  show ?case
  proof (cases "f a = v")
    case True
    with Cons.prems have "v \<notin> f ` set xs" by auto
    then have "filter (\<lambda>t. f t = v) (map (\<lambda>t. if f t = v then item else t) xs) = []"
      by (induction xs) auto
    with True Cons.prems(4) show ?thesis by simp
  next
    case False
    with Cons show ?thesis by auto
  qed
qed

text \<open>
  C1. In every state the system reaches, the registry holds at most one record of a
  given id. After every non-empty sequence of \<open>createToast\<close> calls (through \<open>show\<close>,
  \<open>success\<close>, \<open>error\<close>, \<open>warning\<close>, \<open>info\<close>, \<open>action\<close>) that share the id \<open>i\<close>, the
  registry holds exactly one non-exiting record of id \<open>i\<close>. A call whose id matches a
  non-exiting record \<open>old\<close> replaces that record and adds none: the list after the call is
  the list before it with the record of id \<open>i\<close> exchanged for the record that
  \<open>buildSileoItem\<close> makes from the call's options merged over the store's options, with
  the id \<open>i\<close> and the position of \<open>old\<close> as fallback. That record is the only one of id
  \<open>i\<close>; it is not exiting, carries the state, title, description and duration of the
  call (the store's options where the call gives none) and a fresh instance id, made
  from the incremented counter.
\<close>

theorem one_live_record_per_id:
  "length (filter (\<lambda>t. id' t = Val i) (toasts (run pre init))) \<le> 1 \<and>
   (es \<noteq> [] \<and> (\<forall>ev\<in>set es. creates i ev) \<longrightarrow>
      length (filter (\<lambda>t. id' t = Val i \<and> \<not> exiting t) (toasts (run es (run pre init)))) = 1) \<and>
   (create_call ev = Some (options, e) \<and> toast_id options = i \<and>
    old \<in> set (toasts (run pre init)) \<and> id' old = Val i \<and> \<not> exiting old \<longrightarrow>
      (let new = fst (buildSileoItem (mergeOptions (store_options (run pre init)) options) i
                        (get (position old)) e (run pre init))
       in toasts (step ev (run pre init)) =
            map (\<lambda>t. if id' t = Val i then new else t) (toasts (run pre init)) \<and>
          length (toasts (step ev (run pre init))) = length (toasts (run pre init)) \<and>
          filter (\<lambda>t. id' t = Val i) (toasts (step ev (run pre init))) = [new] \<and>
          id' new = Val i \<and> \<not> exiting new \<and> state new = state options \<and>
          instanceId new = nat_to_string (Suc (idCounter (run pre init))) @ ''-'' @
                             timestamp e @ ''-'' @ random e \<and>
          title new = spread (title (options_of (store_options (run pre init)))) (title options) \<and>
          description new = spread (description (options_of (store_options (run pre init))))
                              (description options) \<and>
          duration new = spread (duration (options_of (store_options (run pre init))))
                           (duration options) \<and>
          position new =
            Val (orElse (spread (position (options_of (store_options (run pre init))))
                           (position options))
                   (orElse (get (position old)) (store_position (run pre init))))))"
proof (intro conjI impI)
  show "length (filter (\<lambda>t. id' t = Val i) (toasts (run pre init))) \<le> 1"
    using reachable_distinct by (rule distinct_count_le)
next
  assume a: "es \<noteq> [] \<and> (\<forall>ev\<in>set es. creates i ev)"
  then obtain es' ev' where es: "es = es' @ [ev']" by (cases es rule: rev_cases) auto
  with a have c: "creates i ev'" by simp
  have "distinct (map id' (toasts (run (pre @ es') init)))" by (rule reachable_distinct)
  from creates_one_live [OF this c] show
    "length (filter (\<lambda>t. id' t = Val i \<and> \<not> exiting t) (toasts (run es (run pre init)))) = 1"
    by (simp add: es)
next
  let ?w = "run pre init"
  assume a: "create_call ev = Some (options, e) \<and> toast_id options = i \<and>
    old \<in> set (toasts ?w) \<and> id' old = Val i \<and> \<not> exiting old"
  define new where "new = fst (buildSileoItem (mergeOptions (store_options ?w) options) i
                        (get (position old)) e ?w)"
  have d: "distinct (map id' (toasts ?w))" by (rule reachable_distinct)
  from a have st: "step ev ?w = snd (createToast options e ?w)"
    by (simp add: create_call_step)
  from a have old: "old \<in> set (toasts ?w)" "id' old = Val (toast_id options)" "\<not> exiting old"
    by simp_all
  from a have i: "toast_id options = i" by simp
  have upd: "toasts (step ev ?w) = map (\<lambda>t. if id' t = Val i then new else t) (toasts ?w)"
    unfolding st new_def createToast_replaces [OF d old] i ..
  have idn: "id' new = Val i" by (simp add: new_def new_record)
  have one: "filter (\<lambda>t. id' t = Val i) (toasts (step ev ?w)) = [new]"
    unfolding upd using d old(1) _ idn by (rule filter_replaced) (use a in simp)
  have len: "length (toasts (step ev ?w)) = length (toasts ?w)"
    unfolding upd by simp
  have rest: "\<not> exiting new \<and> state new = state options \<and>
          instanceId new = nat_to_string (Suc (idCounter ?w)) @ ''-'' @
                             timestamp e @ ''-'' @ random e \<and>
          title new = spread (title (options_of (store_options ?w))) (title options) \<and>
          description new = spread (description (options_of (store_options ?w)))
                              (description options) \<and>
          duration new = spread (duration (options_of (store_options ?w)))
                           (duration options) \<and>
          position new =
            Val (orElse (spread (position (options_of (store_options ?w)))
                           (position options))
                   (orElse (get (position old)) (store_position ?w)))"
    unfolding new_def by (simp only: new_record simp_thms)
  from upd len one idn rest
  show "let new = fst (buildSileoItem (mergeOptions (store_options ?w) options) i
                        (get (position old)) e ?w)
       in toasts (step ev ?w) =
            map (\<lambda>t. if id' t = Val i then new else t) (toasts ?w) \<and>
          length (toasts (step ev ?w)) = length (toasts ?w) \<and>
          filter (\<lambda>t. id' t = Val i) (toasts (step ev ?w)) = [new] \<and>
          id' new = Val i \<and> \<not> exiting new \<and> state new = state options \<and>
          instanceId new = nat_to_string (Suc (idCounter ?w)) @ ''-'' @
                             timestamp e @ ''-'' @ random e \<and>
          title new = spread (title (options_of (store_options ?w))) (title options) \<and>
          description new = spread (description (options_of (store_options ?w)))
                              (description options) \<and>
          duration new = spread (duration (options_of (store_options ?w)))
                           (duration options) \<and>
          position new =
            Val (orElse (spread (position (options_of (store_options ?w)))
                           (position options))
                   (orElse (get (position old)) (store_position ?w)))"
    unfolding Let_def new_def [symmetric] by blast
qed

text \<open>Two calls without an id, from the empty registry: one live record of the default
  id. A call of \<open>success\<close> with a title, while the toast of the first call is live: that
  record, of instance \<open>1-t-r\<close>, gives way to the record of instance \<open>2-t-r\<close> with the
  state and the title of the second call, and the registry still holds one record.\<close>

theorem one_live_record_per_id_witness:
  "length (filter (\<lambda>t. id' t = Val ''sileo-default'' \<and> \<not> exiting t)
     (toasts (run [Show plain env0, SuccessE plain env0] (run [] init)))) = 1 \<and>
   map (\<lambda>t. (id' t, instanceId t, state t, title t, exiting t))
     (toasts (run [Show plain env0] init))
     = [(Val ''sileo-default'', ''1-t-r'', Absent, Absent, False)] \<and>
   map (\<lambda>t. (id' t, instanceId t, state t, title t, exiting t))
     (toasts (step (SuccessE (plain\<lparr>title := Val ''new''\<rparr>) env0) (run [Show plain env0] init)))
     = [(Val ''sileo-default'', ''2-t-r'', Val Success, Val ''new'', False)]"
proof -
  let ?d = "''sileo-default''"
  let ?pre = "[Show plain env0]"
  let ?ev = "SuccessE (plain\<lparr>title := Val ''new''\<rparr>) env0"
  let ?options = "plain\<lparr>title := Val ''new'', state := Val Success\<rparr>"
  let ?old = "hd (toasts (run ?pre init))"
  let ?new = "fst (buildSileoItem (mergeOptions (store_options (run ?pre init)) ?options) ?d
                     (get (position ?old)) env0 (run ?pre init))"
  have c: "creates ?d (Show plain env0)" "creates ?d (SuccessE plain env0)"
    by (simp_all add: toast_id_def plain_def)
  from c one_live_record_per_id [where i = ?d and pre = "[]"
        and es = "[Show plain env0, SuccessE plain env0]"]
  have c1: "length (filter (\<lambda>t. id' t = Val ?d \<and> \<not> exiting t)
     (toasts (run [Show plain env0, SuccessE plain env0] (run [] init)))) = 1"
    by simp
  have c2: "map (\<lambda>t. (id' t, instanceId t, state t, title t, exiting t))
     (toasts (run ?pre init)) = [(Val ?d, ''1-t-r'', Absent, Absent, False)]"
    by code_simp
  have h1: "create_call ?ev = Some (?options, env0)" by simp
  have h2: "toast_id ?options = ?d" by (simp add: toast_id_def plain_def)
  have ne: "toasts (run ?pre init) \<noteq> []" by code_simp
  have h3: "?old \<in> set (toasts (run ?pre init))" using ne by (rule hd_in_set)
  have h4: "id' ?old = Val ?d" by code_simp
  have h5: "\<not> exiting ?old" by code_simp
  from h1 h2 h3 h4 h5
    one_live_record_per_id [where i = ?d and pre = ?pre and ev = ?ev and options = ?options
        and e = env0 and old = ?old and es = "[]"]
  have upd: "toasts (step ?ev (run ?pre init)) =
      map (\<lambda>t. if id' t = Val ?d then ?new else t) (toasts (run ?pre init))"
    unfolding Let_def by blast
  have ev: "map (\<lambda>t. (id' t, instanceId t, state t, title t, exiting t))
      (map (\<lambda>t. if id' t = Val ?d then ?new else t) (toasts (run ?pre init)))
      = [(Val ?d, ''2-t-r'', Val Success, Val ''new'', False)]"
    by code_simp
  have c3: "map (\<lambda>t. (id' t, instanceId t, state t, title t, exiting t))
      (toasts (step ?ev (run ?pre init))) = [(Val ?d, ''2-t-r'', Val Success, Val ''new'', False)]"
    unfolding upd by (rule ev)
  from c1 c2 c3 show ?thesis by (intro conjI)
qed

section \<open>Replacing a record keeps its place\<close>

lemma replace_at_index:
  assumes "distinct (map f xs)" and "k < length xs" and "f (xs ! k) = v"
  shows "map (\<lambda>t. if f t = v then item else t) xs = xs[k := item]"
proof (rule nth_equalityI)
  show "length (map (\<lambda>t. if f t = v then item else t) xs) = length (xs[k := item])" by simp
next
  fix j
  assume "j < length (map (\<lambda>t. if f t = v then item else t) xs)"
  then have j: "j < length xs" by simp
  show "map (\<lambda>t. if f t = v then item else t) xs ! j = xs[k := item] ! j"
  proof (cases "j = k")
    case True
    with assms j show ?thesis by simp
  next
    case False
    have "f (xs ! j) \<noteq> f (xs ! k)"
      using nth_eq_iff_index_eq [OF assms(1), of j k] j assms(2) False by simp
    with assms(2,3) j False show ?thesis by simp
  qed
qed

lemma find_agree:
  "map f xs = map f ys \<Longrightarrow> map g xs = map g ys \<Longrightarrow>
     map_option f (find (\<lambda>t. \<not> g t) xs) = map_option f (find (\<lambda>t. \<not> g t) ys)"
proof (induction xs arbitrary: ys)
  case Nil
  then show ?case by simp
next
  case (Cons x xs)
  then obtain y ys' where ys: "ys = y # ys'" by (cases ys) auto
  with Cons.prems have h: "f x = f y" "g x = g y" "map f xs = map f ys'" "map g xs = map g ys'"
    by simp_all
  from Cons.IH [OF h(3,4)] h(1,2) show ?case unfolding ys by simp
qed

lemma latest_agree:
  assumes "map id' ts = map id' ts'" and "map exiting ts = map exiting ts'"
  shows "latest ts = latest ts'"
proof -
  have eq: "map_option id' (find (\<lambda>t. \<not> exiting t) (rev ts))
      = map_option id' (find (\<lambda>t. \<not> exiting t) (rev ts'))"
    using assms by (intro find_agree) (simp_all add: rev_map [symmetric])
  have l: "latest xs = (case map_option id' (find (\<lambda>t. \<not> exiting t) (rev xs)) of
      None \<Rightarrow> Undefined | Some i \<Rightarrow> get i)" for xs
    by (simp add: latest_def split: option.splits)
  show ?thesis by (simp only: l eq)
qed

lemma store_update_activeId:
  "mounted w \<Longrightarrow> activeId (store_update fn w) = latest (fn (toasts w))"
  by (simp add: store_update_def store_emit_def)

lemma createToast_activeId:
  "mounted w \<Longrightarrow> activeId (snd (createToast options e w))
     = latest (toasts (snd (createToast options e w)))"
  by (simp add: createToast_snd store_update_activeId)

text \<open>
  C10. When \<open>createToast\<close> is called with the id of a non-exiting record, which sits at
  index \<open>k\<close> of the registry, the record that the call builds (by \<open>buildSileoItem\<close>, from
  the call's options merged over the store's options, with the position of the old
  record as fallback) is written at index \<open>k\<close> and every other index keeps its record.
  The record at index \<open>k\<close> is then not exiting and has the id, the state, title and
  description of the call and a fresh instance id. The latest non-exiting toast is the
  same before and after, and a mounted viewport's active toast after the call is that
  same latest toast: replacing a toast does not make it the active one unless it
  already was.
\<close>

theorem replace_keeps_index:
  assumes "create_call ev = Some (options, e)" and "toast_id options = i"
    and "k < length (toasts (run pre init))"
    and "id' (toasts (run pre init) ! k) = Val i" and "\<not> exiting (toasts (run pre init) ! k)"
  shows "(let new = fst (buildSileoItem (mergeOptions (store_options (run pre init)) options) i
                           (get (position (toasts (run pre init) ! k))) e (run pre init))
          in toasts (step ev (run pre init)) = (toasts (run pre init))[k := new] \<and>
             toasts (step ev (run pre init)) ! k = new \<and>
             (\<forall>j<length (toasts (run pre init)).
                 j \<noteq> k \<longrightarrow> toasts (step ev (run pre init)) ! j = toasts (run pre init) ! j) \<and>
             id' new = Val i \<and> \<not> exiting new \<and> state new = state options \<and>
             instanceId new = nat_to_string (Suc (idCounter (run pre init))) @ ''-'' @
                                timestamp e @ ''-'' @ random e \<and>
             title new = spread (title (options_of (store_options (run pre init))))
                           (title options) \<and>
             description new = spread (description (options_of (store_options (run pre init))))
                                 (description options)) \<and>
         latest (toasts (step ev (run pre init))) = latest (toasts (run pre init)) \<and>
         (mounted (run pre init) \<longrightarrow>
            activeId (step ev (run pre init)) = latest (toasts (run pre init)))"
proof -
  let ?w = "run pre init"
  define new where "new = fst (buildSileoItem (mergeOptions (store_options ?w) options) i
                           (get (position (toasts ?w ! k))) e ?w)"
  have d: "distinct (map id' (toasts ?w))" by (rule reachable_distinct)
  have st: "step ev ?w = snd (createToast options e ?w)"
    using assms(1) by (rule create_call_step)
  have old: "toasts ?w ! k \<in> set (toasts ?w)" "id' (toasts ?w ! k) = Val (toast_id options)"
    using assms(2-4) by simp_all
  have "toasts (step ev ?w) = map (\<lambda>t. if id' t = Val i then new else t) (toasts ?w)"
    unfolding st new_def createToast_replaces [OF d old assms(5)] assms(2) ..
  then have upd: "toasts (step ev ?w) = (toasts ?w)[k := new]"
    using replace_at_index [OF d assms(3,4)] by simp
  have item: "id' new = Val i" "\<not> exiting new" by (simp_all add: new_def new_record)
  have at: "toasts (step ev ?w) ! k = new"
    unfolding upd using assms(3) by simp
  have others: "\<forall>j<length (toasts ?w). j \<noteq> k \<longrightarrow> toasts (step ev ?w) ! j = toasts ?w ! j"
    unfolding upd by simp
  have rest: "state new = state options \<and>
             instanceId new = nat_to_string (Suc (idCounter ?w)) @ ''-'' @
                                timestamp e @ ''-'' @ random e \<and>
             title new = spread (title (options_of (store_options ?w))) (title options) \<and>
             description new = spread (description (options_of (store_options ?w)))
                                 (description options)"
    unfolding new_def by (simp only: new_record simp_thms)
  have ids: "map id' ((toasts ?w)[k := new]) = map id' (toasts ?w)"
    using item(1) assms(4) by (simp add: map_update list_update_same_conv assms(3))
  have exs: "map exiting ((toasts ?w)[k := new]) = map exiting (toasts ?w)"
    using item(2) assms(5) by (simp add: map_update list_update_same_conv assms(3))
  have lat: "latest (toasts (step ev ?w)) = latest (toasts ?w)"
    unfolding upd using ids exs by (rule latest_agree)
  have act: "mounted ?w \<longrightarrow> activeId (step ev ?w) = latest (toasts ?w)"
  proof
    assume m: "mounted ?w"
    with createToast_activeId [OF m, of options e] lat st show
      "activeId (step ev ?w) = latest (toasts ?w)" by simp
  qed
  from upd at others item rest lat act show ?thesis
    unfolding Let_def new_def [symmetric] by blast
qed

text \<open>In a mounted viewport, toasts \<open>a\<close> and \<open>b\<close>, then \<open>a\<close> again with a title: index 0
  now holds the record of the third call (instance \<open>3-t-r\<close>, with the title), index 1
  still holds \<open>b\<close>, and the latest and the active toast are still \<open>b\<close>.\<close>

theorem replace_keeps_index_witness:
  "map (\<lambda>t. (id' t, instanceId t, title t))
     (toasts (run [Mount TopRight None, Show (plain\<lparr>id' := Val ''a''\<rparr>) env0,
                   Show (plain\<lparr>id' := Val ''b''\<rparr>) env0] init))
     = [(Val ''a'', ''1-t-r'', Absent), (Val ''b'', ''2-t-r'', Absent)] \<and>
   map (\<lambda>t. (id' t, instanceId t, title t))
     (toasts (step (Show (plain\<lparr>id' := Val ''a'', title := Val ''new''\<rparr>) env0)
     (run [Mount TopRight None, Show (plain\<lparr>id' := Val ''a''\<rparr>) env0,
           Show (plain\<lparr>id' := Val ''b''\<rparr>) env0] init)))
     = [(Val ''a'', ''3-t-r'', Val ''new''), (Val ''b'', ''2-t-r'', Absent)] \<and>
   latest (toasts (step (Show (plain\<lparr>id' := Val ''a'', title := Val ''new''\<rparr>) env0)
     (run [Mount TopRight None, Show (plain\<lparr>id' := Val ''a''\<rparr>) env0,
           Show (plain\<lparr>id' := Val ''b''\<rparr>) env0] init)))
     = Val ''b'' \<and>
   activeId (step (Show (plain\<lparr>id' := Val ''a'', title := Val ''new''\<rparr>) env0)
     (run [Mount TopRight None, Show (plain\<lparr>id' := Val ''a''\<rparr>) env0,
           Show (plain\<lparr>id' := Val ''b''\<rparr>) env0] init))
     = Val ''b''"
proof -
  let ?pre = "[Mount TopRight None, Show (plain\<lparr>id' := Val ''a''\<rparr>) env0,
               Show (plain\<lparr>id' := Val ''b''\<rparr>) env0]"
  let ?options = "plain\<lparr>id' := Val ''a'', title := Val ''new''\<rparr>"
  let ?ev = "Show ?options env0"
  let ?new = "fst (buildSileoItem (mergeOptions (store_options (run ?pre init)) ?options) ''a''
                     (get (position (toasts (run ?pre init) ! 0))) env0 (run ?pre init))"
  have c: "create_call ?ev = Some (?options, env0)" by simp
  have t: "toast_id ?options = ''a''" by (simp add: toast_id_def plain_def)
  have k: "0 < length (toasts (run ?pre init))" by code_simp
  have i: "id' (toasts (run ?pre init) ! 0) = Val ''a''" by code_simp
  have x: "\<not> exiting (toasts (run ?pre init) ! 0)" by code_simp
  have m: "mounted (run ?pre init)" by code_simp
  have before: "map (\<lambda>t. (id' t, instanceId t, title t)) (toasts (run ?pre init))
     = [(Val ''a'', ''1-t-r'', Absent), (Val ''b'', ''2-t-r'', Absent)]" by code_simp
  have lat: "latest (toasts (run ?pre init)) = Val ''b''" by code_simp
  note inst = replace_keeps_index [OF c t k i x, unfolded Let_def]
  from inst have upd: "toasts (step ?ev (run ?pre init)) = (toasts (run ?pre init))[0 := ?new]"
    by (rule conjunct1 [THEN conjunct1])
  from inst have same: "latest (toasts (step ?ev (run ?pre init))) = latest (toasts (run ?pre init))"
    by (rule conjunct2 [THEN conjunct1])
  from inst have "mounted (run ?pre init) \<longrightarrow>
      activeId (step ?ev (run ?pre init)) = latest (toasts (run ?pre init))"
    by (rule conjunct2 [THEN conjunct2])
  with m have "activeId (step ?ev (run ?pre init)) = latest (toasts (run ?pre init))"
    by (rule rev_mp)
  then have act: "activeId (step ?ev (run ?pre init)) = Val ''b''"
    by (simp only: lat)
  have ev: "map (\<lambda>t. (id' t, instanceId t, title t)) ((toasts (run ?pre init))[0 := ?new])
      = [(Val ''a'', ''3-t-r'', Val ''new''), (Val ''b'', ''2-t-r'', Absent)]"
    by code_simp
  have after: "map (\<lambda>t. (id' t, instanceId t, title t)) (toasts (step ?ev (run ?pre init)))
      = [(Val ''a'', ''3-t-r'', Val ''new''), (Val ''b'', ''2-t-r'', Absent)]"
    unfolding upd by (rule ev)
  have "latest (toasts (step ?ev (run ?pre init))) = Val ''b''"
    by (simp only: same lat)
  with before after act show ?thesis by (intro conjI)
qed

section \<open>Promise reactions belong to the default toast\<close>

lemma react_reactions [simp]: "reactions (react i opts out e w) = reactions w"
  using react_cases [of i opts out e w] by auto

lemma settle_reactions [simp]:
  "reactions (settle p out e w) = filter (\<lambda>(q, i, opts). q \<noteq> p) (reactions w)"
proof -
  have "reactions (fold (\<lambda>(q, i, opts) w'. if q = p then react i opts out e w' else w') rs s)
        = reactions s" for rs and s :: world
    by (induction rs arbitrary: s) (auto split: prod.splits)
  then show ?thesis by (simp add: settle_def)
qed

lemma fire_reactions [simp]: "reactions (fire h w) = reactions w"
  by (simp add: fire_def Let_def vp_dismissToast_eq split: option.splits callback.splits)

lemma sileo_clear_reactions [simp]: "reactions (sileo_clear p w) = reactions w"
  by (cases p) simp_all

lemma step_reactions:
  "reactions (step ev w) = reactions w \<or>
   (\<exists>p. reactions (step ev w) = filter (\<lambda>(q, i, opts). q \<noteq> p) (reactions w)) \<or>
   (\<exists>p opts. reactions (step ev w) = reactions w @ [(p, ''sileo-default'', opts)])"
proof (cases ev)
  case (PromiseE promise opts e)
  have "fst (fst (createToast (loading_options opts) e w)) = ''sileo-default''"
    by (simp add: createToast_fst toast_id_def loading_options_def)
  with PromiseE show ?thesis
    by (auto simp add: sileo_promise_def case_prod_beta split: sum.splits)
next
  case (Settle p out e)
  then show ?thesis by auto
qed (simp_all add: sileo_show_def sileo_success_def sileo_error_def sileo_warning_def
      sileo_info_def sileo_action_def sileo_dismiss_def vp_dismissToast_eq case_prod_beta)

lemma step_reactions_default:
  assumes "\<forall>r\<in>set (reactions w). fst (snd r) = ''sileo-default''"
  shows "\<forall>r\<in>set (reactions (step ev w)). fst (snd r) = ''sileo-default''"
  using step_reactions [of ev w] assms by auto

lemma reachable_reactions_default:
  "\<forall>r\<in>set (reactions (run es init)). fst (snd r) = ''sileo-default''"
  by (rule run_invariant) (simp_all add: step_reactions_default init_def)

section \<open>The exiting flag\<close>

text \<open>The elementary changes of the registry and what they do to the records of one id.\<close>

lemma exiting_kept_mark:
  "\<forall>t\<in>set ts. id' t = Val i \<longrightarrow> exiting t \<Longrightarrow>
   \<forall>t\<in>set (map (\<lambda>t. if id' t = Val j then t\<lparr>exiting := True\<rparr> else t) ts).
      id' t = Val i \<longrightarrow> exiting t"
  by auto

lemma exiting_kept_replace:
  "j \<noteq> i \<Longrightarrow> id' item = Val j \<Longrightarrow> \<forall>t\<in>set ts. id' t = Val i \<longrightarrow> exiting t \<Longrightarrow>
   \<forall>t\<in>set (map (\<lambda>t. if id' t = Val j then item else t) ts). id' t = Val i \<longrightarrow> exiting t"
  by auto

lemma exiting_kept_append:
  "j \<noteq> i \<Longrightarrow> id' item = Val j \<Longrightarrow> \<forall>t\<in>set ts. id' t = Val i \<longrightarrow> exiting t \<Longrightarrow>
   \<forall>t\<in>set (filter (\<lambda>t. id' t \<noteq> Val j) ts @ [item]). id' t = Val i \<longrightarrow> exiting t"
  by auto

lemma createToast_keeps_exiting:
  assumes "toast_id options \<noteq> i" and "\<forall>t\<in>set (toasts w). id' t = Val i \<longrightarrow> exiting t"
  shows "\<forall>t\<in>set (toasts (snd (createToast options e w))). id' t = Val i \<longrightarrow> exiting t"
proof (cases "\<exists>t\<in>set (toasts w). \<not> exiting t \<and> id' t = Val (toast_id options)")
  case True
  then have "toasts (snd (createToast options e w)) =
     map (\<lambda>t. if id' t = Val (toast_id options) then built options e w else t) (toasts w)"
    by (simp only: createToast_toasts if_True)
  with exiting_kept_replace [OF assms(1) _ assms(2), of "built options e w"] show ?thesis
    by simp
next
  case False
  then have "toasts (snd (createToast options e w)) =
     filter (\<lambda>t. id' t \<noteq> Val (toast_id options)) (toasts w) @ [built options e w]"
    by (simp only: createToast_toasts if_False)
  with exiting_kept_append [OF assms(1) _ assms(2), of "built options e w"] show ?thesis
    by auto
qed

lemma updateToast_keeps_exiting:
  assumes "j \<noteq> i" and "\<forall>t\<in>set (toasts w). id' t = Val i \<longrightarrow> exiting t"
  shows "\<forall>t\<in>set (toasts (updateToast j options e w)). id' t = Val i \<longrightarrow> exiting t"
  using assms by (auto simp add: updateToast_toasts)

lemma dismissToast_keeps_exiting:
  assumes "\<forall>t\<in>set (toasts w). id' t = Val i \<longrightarrow> exiting t"
  shows "\<forall>t\<in>set (toasts (dismissToast j w)). id' t = Val i \<longrightarrow> exiting t"
  using assms by (auto simp add: dismissToast_toasts)

lemma react_keeps_exiting:
  assumes "j \<noteq> i" and "\<forall>t\<in>set (toasts w). id' t = Val i \<longrightarrow> exiting t"
  shows "\<forall>t\<in>set (toasts (react j opts out e w)). id' t = Val i \<longrightarrow> exiting t"
  using react_cases [of j opts out e w] updateToast_keeps_exiting [OF assms] assms(2)
  by auto

lemma settle_keeps_exiting:
  assumes "i \<noteq> ''sileo-default''"
    and "\<forall>r\<in>set (reactions w). fst (snd r) = ''sileo-default''"
    and "\<forall>t\<in>set (toasts w). id' t = Val i \<longrightarrow> exiting t"
  shows "\<forall>t\<in>set (toasts (settle p out e w)). id' t = Val i \<longrightarrow> exiting t"
proof -
  have "\<forall>t\<in>set (toasts (fold (\<lambda>(q, j, opts) w'. if q = p then react j opts out e w' else w') rs s)).
          id' t = Val i \<longrightarrow> exiting t"
    if "\<forall>r\<in>set rs. fst (snd r) = ''sileo-default''"
      and "\<forall>t\<in>set (toasts s). id' t = Val i \<longrightarrow> exiting t" for rs and s :: world
    using that
  proof (induction rs arbitrary: s)
    case Nil
    then show ?case by simp
  next
    case (Cons r rs)
    obtain q j opts where r: "r = (q, j, opts)" by (cases r)
    with Cons.prems(1) have j: "j = ''sileo-default''" by simp
    have "\<forall>t\<in>set (toasts (if q = p then react j opts out e s else s)). id' t = Val i \<longrightarrow> exiting t"
      using react_keeps_exiting [of j i s opts out e] assms(1) j Cons.prems(2) by auto
    with Cons.IH [of "if q = p then react j opts out e s else s"] Cons.prems(1)
    show ?case by (simp add: r)
  qed
  from this [OF assms(2), of "w\<lparr>reactions := filter (\<lambda>(q, i, opts). q \<noteq> p) (reactions w)\<rparr>"]
    assms(3)
  show ?thesis by (simp add: settle_def)
qed

lemma step_keeps_exiting:
  assumes "\<not> may_rewrite i ev"
    and "\<forall>r\<in>set (reactions w). fst (snd r) = ''sileo-default''"
    and "\<forall>t\<in>set (toasts w). id' t = Val i \<longrightarrow> exiting t"
  shows "\<forall>t\<in>set (toasts (step ev w)). id' t = Val i \<longrightarrow> exiting t"
proof (cases ev)
  case (PromiseE promise opts e)
  have "toast_id (loading_options opts) = ''sileo-default''"
    by (simp add: toast_id_def loading_options_def)
  with assms(1) PromiseE have "toast_id (loading_options opts) \<noteq> i" by simp
  from createToast_keeps_exiting [OF this assms(3), of e] PromiseE show ?thesis
    by (simp add: sileo_promise_def case_prod_beta split: sum.splits)
next
  case (Settle p out e)
  with assms settle_keeps_exiting [of i w p out e] show ?thesis by simp
next
  case (Dismiss j)
  with dismissToast_keeps_exiting [OF assms(3), of j] show ?thesis
    by (simp add: sileo_dismiss_def)
next
  case (SwipeDismiss j)
  have "\<forall>t\<in>set (toasts (getHandlers j w)). id' t = Val i \<longrightarrow> exiting t"
    using assms(3) by simp
  from dismissToast_keeps_exiting [OF this, of j] SwipeDismiss assms(3) show ?thesis
    by (simp add: vp_dismissToast_eq)
next
  case (Clear p)
  with assms(3) show ?thesis by (cases p) simp_all
next
  case (Fire h)
  with assms(3) show ?thesis
    by (auto simp add: fire_toasts split: option.splits callback.splits)
next
  case (Show opts e)
  with assms(1) have "toast_id opts \<noteq> i" by simp
  from createToast_keeps_exiting [OF this assms(3), of e] Show show ?thesis
    by (simp add: sileo_show_def case_prod_beta)
next
  case (SuccessE opts e)
  with assms(1) have "toast_id (opts\<lparr>state := Val Success\<rparr>) \<noteq> i" by (simp add: toast_id_def)
  from createToast_keeps_exiting [OF this assms(3), of e] SuccessE show ?thesis
    by (simp add: sileo_success_def case_prod_beta)
next
  case (ErrorE opts e)
  with assms(1) have "toast_id (opts\<lparr>state := Val Error\<rparr>) \<noteq> i" by (simp add: toast_id_def)
  from createToast_keeps_exiting [OF this assms(3), of e] ErrorE show ?thesis
    by (simp add: sileo_error_def case_prod_beta)
next
  case (WarningE opts e)
  with assms(1) have "toast_id (opts\<lparr>state := Val Warning\<rparr>) \<noteq> i" by (simp add: toast_id_def)
  from createToast_keeps_exiting [OF this assms(3), of e] WarningE show ?thesis
    by (simp add: sileo_warning_def case_prod_beta)
next
  case (InfoE opts e)
  with assms(1) have "toast_id (opts\<lparr>state := Val Info\<rparr>) \<noteq> i" by (simp add: toast_id_def)
  from createToast_keeps_exiting [OF this assms(3), of e] InfoE show ?thesis
    by (simp add: sileo_info_def case_prod_beta)
next
  case (ActionE opts e)
  with assms(1) have "toast_id (opts\<lparr>state := Val Action\<rparr>) \<noteq> i" by (simp add: toast_id_def)
  from createToast_keeps_exiting [OF this assms(3), of e] ActionE show ?thesis
    by (simp add: sileo_action_def case_prod_beta)
qed (use assms(3) in simp_all)

lemma run_keeps_exiting:
  assumes "\<forall>ev\<in>set es. \<not> may_rewrite i ev"
    and "\<forall>r\<in>set (reactions w). fst (snd r) = ''sileo-default''"
    and "\<forall>t\<in>set (toasts w). id' t = Val i \<longrightarrow> exiting t"
  shows "\<forall>t\<in>set (toasts (run es w)). id' t = Val i \<longrightarrow> exiting t"
  using assms
proof (induction es arbitrary: w)
  case Nil
  then show ?case by simp
next
  case (Cons ev es)
  have "\<forall>t\<in>set (toasts (run es (step ev w))). id' t = Val i \<longrightarrow> exiting t"
  proof (rule Cons.IH)
    show "\<forall>ev\<in>set es. \<not> may_rewrite i ev" using Cons.prems(1) by simp
    show "\<forall>r\<in>set (reactions (step ev w)). fst (snd r) = ''sileo-default''"
      using Cons.prems(2) by (rule step_reactions_default)
    show "\<forall>t\<in>set (toasts (step ev w)). id' t = Val i \<longrightarrow> exiting t"
      using Cons.prems by (intro step_keeps_exiting) simp_all
  qed
  then show ?case by simp
qed

section \<open>The timer table\<close>

lemma timer_table_ok_cong:
  "pending w' = pending w \<Longrightarrow> timers w' = timers w \<Longrightarrow> nextHandle w' = nextHandle w \<Longrightarrow>
     timer_table_ok w' = timer_table_ok w"
  by (simp add: timer_table_ok_def)

lemma timer_table_ok_exit:
  "timer_table_ok w \<Longrightarrow> timer_table_ok (snd (setTimeout (ExitRemove i) d w))"
  by (fastforce simp add: timer_table_ok_def)

lemma timer_table_ok_auto:
  assumes "timer_table_ok w"
  shows "timer_table_ok
           ((snd (setTimeout (AutoDismiss i) d w))
              \<lparr>timers := timers (snd (setTimeout (AutoDismiss i) d w)) @ [(k, nextHandle w)]\<rparr>)"
  using assms by (fastforce simp add: timer_table_ok_def)

lemma timer_table_ok_schedule_items:
  "timer_table_ok w \<Longrightarrow> timer_table_ok (schedule_items items w)"
proof (induction items arbitrary: w)
  case Nil
  then show ?case by simp
next
  case (Cons item items)
  show ?case
    using Cons.IH [OF Cons.prems]
      Cons.IH [OF timer_table_ok_auto [OF Cons.prems, of "str (id' item)"
          "orElse (duration item) DEFAULT_DURATION" "timeoutKey item"]]
    by (simp add: Let_def case_prod_beta)
qed

lemma timer_table_ok_schedule:
  "timer_table_ok w \<Longrightarrow> timer_table_ok (schedule items w)"
  by (simp add: schedule_def timer_table_ok_schedule_items)

lemma timer_table_ok_drop:
  assumes "timer_table_ok w"
    and "pending w' = filter (\<lambda>x. handle x \<notin> snd ` {kh \<in> set (timers w). fst kh \<notin> K}) (pending w)"
    and "timers w' = filter (\<lambda>kh. fst kh \<in> K) (timers w)"
    and "nextHandle w' = nextHandle w"
  shows "timer_table_ok w'"
  unfolding timer_table_ok_def
proof (intro conjI ballI)
  show "distinct (map handle (pending w'))"
    using assms(1) by (simp add: assms(2) timer_table_ok_def distinct_map_filter)
next
  fix x assume "x \<in> set (pending w')"
  then show "handle x < nextHandle w'"
    using assms(1) by (simp add: assms(2,4) timer_table_ok_def)
next
  fix kh assume "kh \<in> set (timers w')"
  then show "snd kh < nextHandle w'"
    using assms(1) by (simp add: assms(3,4) timer_table_ok_def)
next
  fix x assume x: "x \<in> set (pending w')"
  then have xp: "x \<in> set (pending w)"
    and keep: "handle x \<notin> snd ` {kh \<in> set (timers w). fst kh \<notin> K}"
    by (simp_all add: assms(2))
  have "is_auto (callback x) = (handle x \<in> snd ` set (timers w))"
    using assms(1) xp by (simp add: timer_table_ok_def)
  moreover have "(handle x \<in> snd ` set (timers w)) = (handle x \<in> snd ` set (timers w'))"
    using keep by (force simp add: assms(3))
  ultimately show "is_auto (callback x) = (handle x \<in> snd ` set (timers w'))"
    by simp
qed

lemma timer_table_ok_listener:
  assumes "timer_table_ok w"
  shows "timer_table_ok (listener next w)"
  unfolding listener_eq
  by (rule timer_table_ok_schedule, rule timer_table_ok_drop [OF assms]) simp_all

lemma timer_table_ok_store_update:
  assumes "timer_table_ok w"
  shows "timer_table_ok (store_update fn w)"
proof -
  have "timer_table_ok (w\<lparr>toasts := fn (toasts w)\<rparr>)"
    using assms by (simp add: timer_table_ok_def)
  then show ?thesis
    by (simp add: store_update_def store_emit_def timer_table_ok_listener)
qed

lemma timer_table_ok_clearAllTimers:
  assumes "timer_table_ok w"
  shows "timer_table_ok (clearAllTimers w)"
  using assms by (auto simp add: timer_table_ok_def distinct_map_filter)

lemma timer_table_ok_dismissToast:
  assumes "timer_table_ok w"
  shows "timer_table_ok (dismissToast i w)"
  using assms
  by (simp add: dismissToast_def Let_def timer_table_ok_exit timer_table_ok_store_update
      split: option.splits)

lemma timer_table_ok_generateId:
  "timer_table_ok (snd (generateId e w)) = timer_table_ok w"
  by (rule timer_table_ok_cong) simp_all

lemma timer_table_ok_createToast:
  assumes "timer_table_ok w"
  shows "timer_table_ok (snd (createToast options e w))"
  using assms
  by (simp add: createToast_snd timer_table_ok_store_update timer_table_ok_generateId)

lemma timer_table_ok_updateToast:
  assumes "timer_table_ok w"
  shows "timer_table_ok (updateToast i options e w)"
  using assms
  by (simp add: updateToast_eq timer_table_ok_store_update timer_table_ok_generateId)

lemma timer_table_ok_fired:
  assumes "timer_table_ok w"
  shows "timer_table_ok (w\<lparr>pending := filter (\<lambda>t. handle t \<noteq> h) (pending w), now := n\<rparr>)"
  using assms by (auto simp add: timer_table_ok_def distinct_map_filter)

lemma timer_table_ok_fire:
  assumes "timer_table_ok w"
  shows "timer_table_ok (fire h w)"
  using timer_table_ok_fired [OF assms] assms
  by (simp add: fire_def Let_def vp_dismissToast_eq timer_table_ok_store_update
      timer_table_ok_dismissToast split: option.splits callback.splits)

section \<open>The viewport's state\<close>

lemma timers_store_update_idle:
  "timers w = [] \<Longrightarrow> hovered w \<or> \<not> mounted w \<Longrightarrow> timers (store_update fn w) = []"
  by (auto simp add: store_update_def store_emit_def listener_eq schedule_def)

lemma viewport_ok_store_update:
  assumes "viewport_ok w"
  shows "viewport_ok (store_update fn w)"
  using assms
  by (auto simp add: viewport_ok_def timer_table_ok_store_update timers_store_update_idle)

lemma viewport_ok_exit:
  assumes "viewport_ok w"
  shows "viewport_ok (snd (setTimeout (ExitRemove i) d w))"
  using assms by (simp add: viewport_ok_def timer_table_ok_exit)

lemma viewport_ok_generateId:
  "viewport_ok (snd (generateId e w)) = viewport_ok w"
  by (simp add: viewport_ok_def timer_table_ok_generateId)

lemma viewport_ok_dismissToast:
  assumes "viewport_ok w"
  shows "viewport_ok (dismissToast i w)"
  using assms
  by (simp add: dismissToast_def Let_def viewport_ok_exit viewport_ok_store_update
      split: option.splits)

lemma viewport_ok_createToast:
  assumes "viewport_ok w"
  shows "viewport_ok (snd (createToast options e w))"
  using assms
  by (simp add: createToast_snd viewport_ok_store_update viewport_ok_generateId)

lemma viewport_ok_updateToast:
  assumes "viewport_ok w"
  shows "viewport_ok (updateToast i options e w)"
  using assms
  by (simp add: updateToast_eq viewport_ok_store_update viewport_ok_generateId)

lemma viewport_ok_react:
  assumes "viewport_ok w"
  shows "viewport_ok (react i opts out e w)"
  using react_cases [of i opts out e w] assms by (auto simp add: viewport_ok_updateToast)

lemma viewport_ok_settle:
  assumes "viewport_ok w"
  shows "viewport_ok (settle p out e w)"
  unfolding settle_def
proof (rule fold_invariant)
  show "viewport_ok (w\<lparr>reactions := filter (\<lambda>(q, i, opts). q \<noteq> p) (reactions w)\<rparr>)"
    using assms by (simp add: viewport_ok_def timer_table_ok_def)
next
  fix x and s :: world
  assume "viewport_ok s"
  then show "viewport_ok ((case x of (q, i, opts) \<Rightarrow>
      \<lambda>w'. if q = p then react i opts out e w' else w') s)"
    by (cases x) (simp add: viewport_ok_react)
qed

lemma viewport_ok_fire:
  assumes "viewport_ok w"
  shows "viewport_ok (fire h w)"
proof -
  have "viewport_ok (w\<lparr>pending := filter (\<lambda>t. handle t \<noteq> h) (pending w), now := n\<rparr>)" for n
    using assms timer_table_ok_fired [where w = w and h = h and n = n]
    by (simp add: viewport_ok_def)
  then show ?thesis
    using assms
    by (simp add: fire_def Let_def vp_dismissToast_eq viewport_ok_store_update
        viewport_ok_dismissToast split: option.splits callback.splits)
qed

lemma viewport_ok_mount:
  assumes "viewport_ok w" and "\<not> mounted w"
  shows "viewport_ok (mount p opts w)"
  using assms by (simp add: viewport_ok_def timer_table_ok_def)

lemma viewport_ok_unmount:
  assumes "viewport_ok w"
  shows "viewport_ok (unmount w)"
  using assms timer_table_ok_clearAllTimers [of "w\<lparr>mounted := False\<rparr>"]
  by (simp add: viewport_ok_def unmount_def timer_table_ok_def)

lemma viewport_ok_getHandlers:
  "viewport_ok (getHandlers i w) = viewport_ok w"
  by (simp add: viewport_ok_def timer_table_ok_def)

lemma viewport_ok_enter:
  assumes "viewport_ok w"
  shows "viewport_ok (enter i w)"
proof (cases "hovered w")
  case True
  with assms show ?thesis
    by (simp add: enter_def Let_def viewport_ok_def timer_table_ok_def)
next
  case False
  have "timer_table_ok (w\<lparr>activeId := Val i, hovered := True\<rparr>)"
    using assms by (simp add: viewport_ok_def timer_table_ok_def)
  from timer_table_ok_clearAllTimers [OF this] False assms show ?thesis
    by (simp add: enter_def Let_def viewport_ok_def)
qed

lemma viewport_ok_leave:
  assumes "viewport_ok w" and "mounted w"
  shows "viewport_ok (leave i w)"
proof (cases "hovered w")
  case False
  with assms show ?thesis
    by (simp add: leave_def Let_def viewport_ok_def timer_table_ok_def)
next
  case True
  have "timer_table_ok (w\<lparr>activeId := latest (vp_toasts w), hovered := False\<rparr>)"
    using assms by (simp add: viewport_ok_def timer_table_ok_def)
  from timer_table_ok_schedule [OF this, of "vp_toasts w"] True assms show ?thesis
    by (simp add: leave_def Let_def viewport_ok_def)
qed

lemma step_viewport_ok:
  assumes "viewport_ok w"
  shows "viewport_ok (step ev w)"
proof (cases ev)
  case (PromiseE promise opts e)
  have "viewport_ok (snd (createToast (loading_options opts) e w))"
    using assms by (rule viewport_ok_createToast)
  then have "viewport_ok ((snd (createToast (loading_options opts) e w))\<lparr>reactions := rs\<rparr>)" for rs
    by (simp add: viewport_ok_def timer_table_ok_def)
  with PromiseE \<open>viewport_ok (snd (createToast (loading_options opts) e w))\<close> show ?thesis
    by (simp add: sileo_promise_def case_prod_beta split: sum.splits)
next
  case (Advance dt)
  with assms show ?thesis by (simp add: viewport_ok_def timer_table_ok_def)
next
  case (SetProps p opts)
  with assms show ?thesis by (simp add: viewport_ok_def timer_table_ok_def syncConfig_def)
next
  case (Clear p)
  with assms show ?thesis by (cases p) (simp_all add: viewport_ok_store_update)
qed (use assms in \<open>simp_all add: sileo_show_def sileo_success_def sileo_error_def
      sileo_warning_def sileo_info_def sileo_action_def sileo_dismiss_def vp_dismissToast_eq
      case_prod_beta viewport_ok_createToast viewport_ok_settle viewport_ok_dismissToast
      viewport_ok_fire viewport_ok_mount viewport_ok_unmount viewport_ok_enter viewport_ok_leave
      viewport_ok_getHandlers\<close>)

lemma reachable_viewport_ok: "viewport_ok (run es init)"
proof (rule run_invariant)
  show "viewport_ok init"
    by (simp add: init_def viewport_ok_def timer_table_ok_def)
qed (rule step_viewport_ok)

section \<open>Exit timers are never cleared\<close>

lemma pending_schedule_items_mono:
  "set (pending w) \<subseteq> set (pending (schedule_items items w))"
proof (induction items arbitrary: w)
  case Nil
  then show ?case by simp
next
  case (Cons item items)
  let ?w1 = "(snd (setTimeout (AutoDismiss (str (id' item)))
                (orElse (duration item) DEFAULT_DURATION) w))
             \<lparr>timers := timers (snd (setTimeout (AutoDismiss (str (id' item)))
                (orElse (duration item) DEFAULT_DURATION) w)) @ [(timeoutKey item, nextHandle w)]\<rparr>"
  have "set (pending w) \<subseteq> set (pending ?w1)" by auto
  with Cons.IH [of w] Cons.IH [of ?w1] show ?case
    by (auto simp add: Let_def case_prod_beta)
qed

lemma pending_schedule_items_keep:
  "x \<in> set (pending w) \<Longrightarrow> x \<in> set (pending (schedule_items items w))"
  using pending_schedule_items_mono [of w items] by blast

lemma exit_kept_listener:
  assumes "timer_table_ok w" and "x \<in> set (pending w)" and "\<not> is_auto (callback x)"
  shows "x \<in> set (pending (listener next w))"
proof -
  define w0 where "w0 =
       w\<lparr>vp_toasts := next,
          pending := filter (\<lambda>x. handle x \<notin> snd ` {kh \<in> set (timers w). fst kh \<notin> set (map timeoutKey next)})
                       (pending w),
          timers := filter (\<lambda>kh. fst kh \<in> set (map timeoutKey next)) (timers w),
          handlersCache := filter (\<lambda>i. i \<in> set (map (\<lambda>t. str (id' t)) next)) (handlersCache w),
          activeId := latest next\<rparr>"
  have "handle x \<notin> snd ` set (timers w)"
    using assms by (simp add: timer_table_ok_def)
  then have "handle x \<notin> snd ` {kh \<in> set (timers w). fst kh \<notin> set (map timeoutKey next)}"
    by auto
  with assms(2) have x0: "x \<in> set (pending w0)"
    by (simp add: w0_def)
  then have "x \<in> set (pending (schedule_items next w0))"
    using pending_schedule_items_mono [of w0 "next"] by blast
  with x0 have "x \<in> set (pending (schedule next w0))"
    by (simp add: schedule_def)
  then show ?thesis
    by (simp only: listener_eq w0_def)
qed

lemma exit_kept_store_update:
  assumes "timer_table_ok w" and "x \<in> set (pending w)" and "\<not> is_auto (callback x)"
  shows "x \<in> set (pending (store_update fn w))"
proof -
  have "timer_table_ok (w\<lparr>toasts := fn (toasts w)\<rparr>)"
    using assms(1) by (simp add: timer_table_ok_def)
  from exit_kept_listener [OF this _ assms(3)] assms(2) show ?thesis
    by (simp add: store_update_def store_emit_def)
qed

lemma exit_kept_dismissToast:
  assumes "timer_table_ok w" and "x \<in> set (pending w)" and "\<not> is_auto (callback x)"
  shows "x \<in> set (pending (dismissToast i w))"
  using assms exit_kept_store_update [OF assms]
  by (simp add: dismissToast_def Let_def split: option.splits)

lemma exit_kept_createToast:
  assumes "timer_table_ok w" and "x \<in> set (pending w)" and "\<not> is_auto (callback x)"
  shows "x \<in> set (pending (snd (createToast options e w)))"
proof -
  have "timer_table_ok (snd (generateId e w))" "x \<in> set (pending (snd (generateId e w)))"
    using assms by (simp_all add: timer_table_ok_generateId)
  from exit_kept_store_update [OF this assms(3)] show ?thesis
    by (simp add: createToast_snd)
qed

lemma exit_kept_updateToast:
  assumes "timer_table_ok w" and "x \<in> set (pending w)" and "\<not> is_auto (callback x)"
  shows "x \<in> set (pending (updateToast i options e w))"
proof -
  have "timer_table_ok (snd (generateId e w))" "x \<in> set (pending (snd (generateId e w)))"
    using assms by (simp_all add: timer_table_ok_generateId)
  from exit_kept_store_update [OF this assms(3)] assms(2) show ?thesis
    by (simp add: updateToast_eq)
qed

lemma exit_kept_react:
  assumes "timer_table_ok w" and "x \<in> set (pending w)" and "\<not> is_auto (callback x)"
  shows "x \<in> set (pending (react i opts out e w))"
  using react_cases [of i opts out e w] exit_kept_updateToast [OF assms] assms(2) by auto

lemma exit_kept_settle:
  assumes "timer_table_ok w" and "x \<in> set (pending w)" and "\<not> is_auto (callback x)"
  shows "x \<in> set (pending (settle p out e w))"
proof -
  have "timer_table_ok (settle p out e w) \<and> x \<in> set (pending (settle p out e w))"
    unfolding settle_def
  proof (rule fold_invariant)
    show "timer_table_ok (w\<lparr>reactions := filter (\<lambda>(q, i, opts). q \<noteq> p) (reactions w)\<rparr>) \<and>
          x \<in> set (pending (w\<lparr>reactions := filter (\<lambda>(q, i, opts). q \<noteq> p) (reactions w)\<rparr>))"
      using assms by (simp add: timer_table_ok_def)
  next
    fix r :: "nat \<times> string \<times> SileoPromiseOptions" and s :: world
    assume s: "timer_table_ok s \<and> x \<in> set (pending s)"
    obtain q i opts where r: "r = (q, i, opts)" by (cases r)
    have "timer_table_ok (react i opts out e s)"
      using s react_cases [of i opts out e s] by (auto simp add: timer_table_ok_updateToast)
    moreover have "x \<in> set (pending (react i opts out e s))"
      using s assms(3) by (simp add: exit_kept_react)
    ultimately show "timer_table_ok ((case r of (q, i, opts) \<Rightarrow>
          \<lambda>w'. if q = p then react i opts out e w' else w') s) \<and>
        x \<in> set (pending ((case r of (q, i, opts) \<Rightarrow>
          \<lambda>w'. if q = p then react i opts out e w' else w') s))"
      using s by (simp add: r)
  qed
  then show ?thesis by simp
qed

lemma exit_kept_fire:
  assumes "timer_table_ok w" and "x \<in> set (pending w)" and "\<not> is_auto (callback x)"
    and "h \<noteq> handle x"
  shows "x \<in> set (pending (fire h w))"
proof -
  let ?w1 = "\<lambda>n. w\<lparr>pending := filter (\<lambda>t. handle t \<noteq> h) (pending w), now := n\<rparr>"
  have ok: "timer_table_ok (?w1 n)" for n
    using timer_table_ok_fired [OF assms(1)] by simp
  have x: "x \<in> set (pending (?w1 n))" for n
    using assms(2,4) by simp
  show ?thesis
    using assms(2) exit_kept_store_update [OF ok x assms(3)] exit_kept_dismissToast [OF ok x assms(3)]
    by (simp add: fire_def Let_def vp_dismissToast_eq split: option.splits callback.splits)
qed

lemma exit_kept_clearAllTimers:
  assumes "timer_table_ok w" and "x \<in> set (pending w)" and "\<not> is_auto (callback x)"
  shows "x \<in> set (pending (clearAllTimers w))"
  using assms by (simp add: timer_table_ok_def)

lemma exit_kept_step:
  assumes "viewport_ok w" and "x \<in> set (pending w)" and "\<not> is_auto (callback x)"
    and "ev \<noteq> Fire (handle x)"
  shows "x \<in> set (pending (step ev w))"
proof -
  have ok: "timer_table_ok w" using assms(1) by (simp add: viewport_ok_def)
  show ?thesis
  proof (cases ev)
    case (PromiseE promise opts e)
    with exit_kept_createToast [OF ok assms(2,3), of "loading_options opts" e] show ?thesis
      by (simp add: sileo_promise_def case_prod_beta split: sum.splits)
  next
    case (Settle p out e)
    with exit_kept_settle [OF ok assms(2,3)] show ?thesis by simp
  next
    case (Dismiss i)
    with exit_kept_dismissToast [OF ok assms(2,3)] show ?thesis by (simp add: sileo_dismiss_def)
  next
    case (Clear p)
    with exit_kept_store_update [OF ok assms(2,3)] show ?thesis by (cases p) simp_all
  next
    case (Fire h)
    with assms(4) exit_kept_fire [OF ok assms(2,3), of h] show ?thesis by simp
  next
    case (Advance dt)
    with assms(2) show ?thesis by simp
  next
    case (Mount p opts)
    with assms(2) show ?thesis by simp
  next
    case (SetProps p opts)
    with assms(2) show ?thesis by simp
  next
    case Unmount
    have "timer_table_ok (w\<lparr>mounted := False\<rparr>)" "x \<in> set (pending (w\<lparr>mounted := False\<rparr>))"
      using ok assms(2) by (simp_all add: timer_table_ok_def)
    from exit_kept_clearAllTimers [OF this assms(3)] Unmount assms(2) show ?thesis
      by (simp add: unmount_def)
  next
    case (MouseEnter i)
    have "timer_table_ok (getHandlers i w\<lparr>activeId := Val i, hovered := True\<rparr>)"
      "x \<in> set (pending (getHandlers i w\<lparr>activeId := Val i, hovered := True\<rparr>))"
      using ok assms(2) by (simp_all add: timer_table_ok_def)
    from exit_kept_clearAllTimers [OF this assms(3)] MouseEnter assms(2) show ?thesis
      by (simp add: enter_def Let_def)
  next
    case (MouseLeave i)
    with assms(2) show ?thesis
      by (simp add: leave_def Let_def schedule_def pending_schedule_items_keep)
  next
    case (SwipeDismiss i)
    have "timer_table_ok (getHandlers i w)" "x \<in> set (pending (getHandlers i w))"
      using ok assms(2) by (simp_all add: timer_table_ok_def)
    from exit_kept_dismissToast [OF this assms(3)] SwipeDismiss assms(2) show ?thesis
      by (simp add: vp_dismissToast_eq)
  next
    case (Show opts e)
    with exit_kept_createToast [OF ok assms(2,3)] show ?thesis
      by (simp add: sileo_show_def case_prod_beta)
  next
    case (SuccessE opts e)
    with exit_kept_createToast [OF ok assms(2,3)] show ?thesis
      by (simp add: sileo_success_def case_prod_beta)
  next
    case (ErrorE opts e)
    with exit_kept_createToast [OF ok assms(2,3)] show ?thesis
      by (simp add: sileo_error_def case_prod_beta)
  next
    case (WarningE opts e)
    with exit_kept_createToast [OF ok assms(2,3)] show ?thesis
      by (simp add: sileo_warning_def case_prod_beta)
  next
    case (InfoE opts e)
    with exit_kept_createToast [OF ok assms(2,3)] show ?thesis
      by (simp add: sileo_info_def case_prod_beta)
  next
    case (ActionE opts e)
    with exit_kept_createToast [OF ok assms(2,3)] show ?thesis
      by (simp add: sileo_action_def case_prod_beta)
  qed
qed

lemma exit_kept_run:
  assumes "viewport_ok w" and "x \<in> set (pending w)" and "\<not> is_auto (callback x)"
    and "\<forall>ev\<in>set es. ev \<noteq> Fire (handle x)"
  shows "x \<in> set (pending (run es w))"
  using assms
proof (induction es arbitrary: w)
  case Nil
  then show ?case by simp
next
  case (Cons ev es)
  have "x \<in> set (pending (run es (step ev w)))"
  proof (rule Cons.IH)
    show "viewport_ok (step ev w)" using Cons.prems(1) by (rule step_viewport_ok)
    show "x \<in> set (pending (step ev w))" using Cons.prems by (intro exit_kept_step) simp_all
    show "\<not> is_auto (callback x)" by (rule Cons.prems(3))
    show "\<forall>ev\<in>set es. ev \<noteq> Fire (handle x)" using Cons.prems(4) by simp
  qed
  then show ?case by simp
qed

section \<open>Dismissal in two phases\<close>

lemma pending_store_update_exit:
  "pending (snd (setTimeout cb d (store_update fn w))) =
     pending (store_update fn w) @
       [\<lparr>handle = nextHandle (store_update fn w), due = now w + max 0 d, callback = cb\<rparr>]"
  by simp

text \<open>\<open>dismiss\<close> of a live record: every record of the id is marked, and the exit timer
  is set for 600 ms later.\<close>

lemma dismissToast_live:
  assumes "distinct (map id' (toasts w))" and "t \<in> set (toasts w)" and "id' t = Val i"
    and "\<not> exiting t"
  shows "toasts (dismissToast i w) =
           map (\<lambda>t. if id' t = Val i then t\<lparr>exiting := True\<rparr> else t) (toasts w)"
    and "\<lparr>handle = nextHandle (dismissToast i w) - 1, due = now w + 600,
          callback = ExitRemove i\<rparr> \<in> set (pending (dismissToast i w))"
proof -
  have f: "find (\<lambda>t. id' t = Val i) (toasts w) = Some t"
    using assms(1-3) by (rule find_by_id)
  show "toasts (dismissToast i w) =
           map (\<lambda>t. if id' t = Val i then t\<lparr>exiting := True\<rparr> else t) (toasts w)"
    using f assms(4) by (simp add: dismissToast_toasts)
  show "\<lparr>handle = nextHandle (dismissToast i w) - 1, due = now w + 600,
          callback = ExitRemove i\<rparr> \<in> set (pending (dismissToast i w))"
    using f assms(4) by (simp add: dismissToast_def Let_def)
qed

text \<open>A record that is absent or already exiting: \<open>dismiss\<close> changes nothing at all.\<close>

lemma dismissToast_noop:
  assumes "\<forall>t\<in>set (toasts w). id' t = Val i \<longrightarrow> exiting t"
  shows "dismissToast i w = w"
proof (cases "find (\<lambda>t. id' t = Val i) (toasts w)")
  case None
  then show ?thesis by (simp add: dismissToast_def)
next
  case (Some t)
  with assms find_SomeD [OF Some] show ?thesis by (simp add: dismissToast_def)
qed

lemma fire_fields [simp]:
  "mounted (fire h w) = mounted w"
  "hovered (fire h w) = hovered w"
  "store_options (fire h w) = store_options w"
  "store_position (fire h w) = store_position w"
  by (simp_all add: fire_def Let_def vp_dismissToast_eq split: option.splits callback.splits)

lemma fire_exit:
  assumes "timer_table_ok w" and "x \<in> set (pending w)" and "callback x = ExitRemove i"
  shows "toasts (fire (handle x) w) = filter (\<lambda>t. id' t \<noteq> Val i) (toasts w)"
    and "now (fire (handle x) w) = max (now w) (due x)"
proof -
  have f: "find (\<lambda>t. handle t = handle x) (pending w) = Some x"
    using assms(1,2) by (intro find_distinct) (simp_all add: timer_table_ok_def)
  show "toasts (fire (handle x) w) = filter (\<lambda>t. id' t \<noteq> Val i) (toasts w)"
    using f assms(3) by (simp add: fire_toasts)
  show "now (fire (handle x) w) = max (now w) (due x)"
    using f assms(3) by (simp add: fire_def Let_def)
qed

lemma fire_auto_ids:
  assumes "\<forall>x\<in>set (pending w). h = handle x \<longrightarrow> is_auto (callback x)"
  shows "map id' (toasts (fire h w)) = map id' (toasts w)"
proof (cases "find (\<lambda>t. handle t = h) (pending w)")
  case None
  then show ?thesis by (simp add: fire_toasts)
next
  case (Some x)
  from find_SomeD [OF Some] assms have "is_auto (callback x)" by auto
  then obtain j where "callback x = AutoDismiss j" by (cases "callback x") auto
  with Some show ?thesis by (simp add: fire_toasts)
qed

text \<open>The ids in the registry after a step that is neither \<open>clear\<close> nor the firing of an
  exit timer.\<close>

lemma createToast_ids:
  "set (map id' (toasts w)) \<subseteq> set (map id' (toasts (snd (createToast options e w))))"
proof (cases "\<exists>t\<in>set (toasts w). \<not> exiting t \<and> id' t = Val (toast_id options)")
  case True
  then have "map id' (toasts (snd (createToast options e w))) = map id' (toasts w)"
    by (simp add: createToast_toasts ids_replace_comp)
  then show ?thesis by (simp only: subset_refl)
next
  case False
  then have "toasts (snd (createToast options e w)) =
     filter (\<lambda>t. id' t \<noteq> Val (toast_id options)) (toasts w) @ [built options e w]"
    by (simp only: createToast_toasts if_False)
  then show ?thesis by auto
qed

lemma dismissToast_ids_set [simp]:
  "id' ` set (toasts (dismissToast i w)) = id' ` set (toasts w)"
  using dismissToast_ids [of i w] by (metis set_map)

lemma updateToast_ids [simp]:
  "map id' (toasts (updateToast i options e w)) = map id' (toasts w)"
  by (simp add: updateToast_toasts ids_replace_comp)

lemma react_ids [simp]:
  "map id' (toasts (react i opts out e w)) = map id' (toasts w)"
  using react_cases [of i opts out e w] by auto

lemma settle_ids [simp]:
  "map id' (toasts (settle p out e w)) = map id' (toasts w)"
proof -
  have "map id' (toasts (fold (\<lambda>(q, i, opts) w'. if q = p then react i opts out e w' else w') rs s))
        = map id' (toasts s)" for rs and s :: world
    by (induction rs arbitrary: s) (auto split: prod.splits)
  then show ?thesis by (simp add: settle_def)
qed

lemma ids_kept_step:
  assumes "\<forall>p. ev \<noteq> Clear p"
    and "\<forall>x\<in>set (pending w). ev = Fire (handle x) \<longrightarrow> is_auto (callback x)"
  shows "set (map id' (toasts w)) \<subseteq> set (map id' (toasts (step ev w)))"
proof (cases ev)
  case (PromiseE promise opts e)
  with createToast_ids [of w "loading_options opts" e] show ?thesis
    by (simp add: sileo_promise_def case_prod_beta split: sum.splits)
next
  case (Fire h)
  with assms(2) have "\<forall>x\<in>set (pending w). h = handle x \<longrightarrow> is_auto (callback x)" by simp
  from fire_auto_ids [OF this] Fire show ?thesis by simp
next
  case (Clear p)
  with assms(1) show ?thesis by simp
next
  case (Show opts e)
  with createToast_ids [of w opts e] show ?thesis
    by (simp add: sileo_show_def case_prod_beta)
next
  case (SuccessE opts e)
  with createToast_ids [of w _ e] show ?thesis
    by (simp add: sileo_success_def case_prod_beta)
next
  case (ErrorE opts e)
  with createToast_ids [of w _ e] show ?thesis
    by (simp add: sileo_error_def case_prod_beta)
next
  case (WarningE opts e)
  with createToast_ids [of w _ e] show ?thesis
    by (simp add: sileo_warning_def case_prod_beta)
next
  case (InfoE opts e)
  with createToast_ids [of w _ e] show ?thesis
    by (simp add: sileo_info_def case_prod_beta)
next
  case (ActionE opts e)
  with createToast_ids [of w _ e] show ?thesis
    by (simp add: sileo_action_def case_prod_beta)
qed (simp_all add: sileo_dismiss_def vp_dismissToast_eq)

lemma run_snoc: "step ev (run es w) = run (es @ [ev]) w"
  by simp

lemma same_handle_same_timer:
  assumes "timer_table_ok w" and "x \<in> set (pending w)" and "y \<in> set (pending w)"
    and "handle x = handle y"
  shows "x = y"
proof -
  have "inj_on handle (set (pending w))"
    using assms(1) by (simp add: timer_table_ok_def distinct_map)
  from inj_onD [OF this assms(4) assms(2) assms(3)] show ?thesis .
qed

lemma react_fields [simp]:
  "mounted (react i opts out e w) = mounted w"
  "hovered (react i opts out e w) = hovered w"
  "now (react i opts out e w) = now w"
  using react_cases [of i opts out e w] by auto

lemma settle_mounted [simp]: "mounted (settle p out e w) = mounted w"
proof -
  have "mounted (fold (\<lambda>(q, i, opts) w'. if q = p then react i opts out e w' else w') rs s)
        = mounted s" for rs and s :: world
    by (induction rs arbitrary: s) (auto split: prod.splits)
  then show ?thesis by (simp add: settle_def)
qed

lemma settle_hovered [simp]: "hovered (settle p out e w) = hovered w"
proof -
  have "hovered (fold (\<lambda>(q, i, opts) w'. if q = p then react i opts out e w' else w') rs s)
        = hovered s" for rs and s :: world
    by (induction rs arbitrary: s) (auto split: prod.splits)
  then show ?thesis by (simp add: settle_def)
qed

lemma sileo_clear_fields [simp]:
  "mounted (sileo_clear p w) = mounted w"
  "hovered (sileo_clear p w) = hovered w"
  by (cases p; simp)+

lemma step_mounted:
  "mounted (step ev w) =
     (case ev of Mount p opts \<Rightarrow> True | Unmount \<Rightarrow> False | _ \<Rightarrow> mounted w)"
  by (cases ev)
     (simp_all add: sileo_show_def sileo_success_def sileo_error_def sileo_warning_def
       sileo_info_def sileo_action_def sileo_promise_def sileo_dismiss_def vp_dismissToast_eq
       case_prod_beta split: sum.splits)

lemma run_stays_unmounted:
  assumes "\<not> mounted w" and "\<forall>ev\<in>set es. \<forall>p opts. ev \<noteq> Mount p opts"
  shows "\<not> mounted (run es w)"
  using assms
proof (induction es arbitrary: w)
  case Nil
  then show ?case by simp
next
  case (Cons ev es)
  from Cons.prems have "\<not> mounted (step ev w)"
    by (auto simp add: step_mounted split: event.splits)
  with Cons show ?case by simp
qed

lemma no_auto_without_timers:
  assumes "viewport_ok w" and "timers w = []"
  shows "\<forall>x\<in>set (pending w). \<not> is_auto (callback x)"
  using assms by (simp add: viewport_ok_def timer_table_ok_def)




text \<open>The expiry of an auto-dismiss timer is a call of the viewport's \<open>dismissToast\<close>, at
  the time the timer is due.\<close>

lemma fire_auto:
  assumes "timer_table_ok w" and "y \<in> set (pending w)" and "callback y = AutoDismiss i"
  shows "fire (handle y) w =
           dismissToast i (w\<lparr>pending := filter (\<lambda>t. handle t \<noteq> handle y) (pending w),
                             now := max (now w) (due y)\<rparr>)"
proof -
  have f: "find (\<lambda>t. handle t = handle y) (pending w) = Some y"
    using assms(1,2) by (intro find_distinct) (simp_all add: timer_table_ok_def)
  show ?thesis
    unfolding fire_def f vp_dismissToast_eq using assms(3) by (simp add: Let_def)
qed

text \<open>Marking: after \<open>dismissToast\<close> of a live record every record of the id is exiting
  and an exit timer of the id is pending, due 600 ms after the call.\<close>

lemma dismissToast_marks:
  assumes "distinct (map id' (toasts w))" and "t \<in> set (toasts w)" and "id' t = Val i"
    and "\<not> exiting t"
  shows "toasts (dismissToast i w) =
           map (\<lambda>t. if id' t = Val i then t\<lparr>exiting := True\<rparr> else t) (toasts w)"
    and "\<forall>t\<in>set (toasts (dismissToast i w)). id' t = Val i \<longrightarrow> exiting t"
    and "\<exists>x\<in>set (pending (dismissToast i w)). callback x = ExitRemove i \<and> due x = now w + 600"
proof -
  show m: "toasts (dismissToast i w) =
           map (\<lambda>t. if id' t = Val i then t\<lparr>exiting := True\<rparr> else t) (toasts w)"
    using assms by (rule dismissToast_live(1))
  show "\<forall>t\<in>set (toasts (dismissToast i w)). id' t = Val i \<longrightarrow> exiting t"
    unfolding m by auto
  have "callback \<lparr>handle = nextHandle (dismissToast i w) - 1, due = now w + 600,
          callback = ExitRemove i\<rparr> = ExitRemove i \<and>
        due \<lparr>handle = nextHandle (dismissToast i w) - 1, due = now w + 600,
          callback = ExitRemove i\<rparr> = now w + 600"
    by simp
  with dismissToast_live(2) [OF assms]
  show "\<exists>x\<in>set (pending (dismissToast i w)). callback x = ExitRemove i \<and> due x = now w + 600"
    by blast
qed

text \<open>Once every record of an id is exiting, and as long as nothing rewrites the id, the
  exit timer of the id removes exiting records only.\<close>

lemma exit_removes_exiting:
  assumes "\<forall>t\<in>set (toasts (run pre init)). id' t = Val i \<longrightarrow> exiting t"
    and "\<forall>ev\<in>set es. \<not> may_rewrite i ev"
    and "x \<in> set (pending (run es (run pre init)))" and "callback x = ExitRemove i"
  shows "\<forall>t\<in>set (toasts (run es (run pre init))).
           t \<notin> set (toasts (step (Fire (handle x)) (run es (run pre init)))) \<longrightarrow> exiting t"
proof -
  let ?w2 = "run es (run pre init)"
  have w2: "?w2 = run (pre @ es) init" by simp
  have r1: "\<forall>r\<in>set (reactions (run pre init)). fst (snd r) = ''sileo-default''"
    by (rule reachable_reactions_default)
  have e2: "\<forall>t\<in>set (toasts ?w2). id' t = Val i \<longrightarrow> exiting t"
    using assms(2) run_keeps_exiting [OF _ r1 assms(1), of es] by blast
  have ok: "timer_table_ok ?w2"
    unfolding w2 using reachable_viewport_ok by (simp only: viewport_ok_def)
  have "toasts (step (Fire (handle x)) ?w2) = filter (\<lambda>t. id' t \<noteq> Val i) (toasts ?w2)"
    using assms(3,4) fire_exit(1) [OF ok, of x i] by simp
  with e2 show ?thesis by auto
qed


text \<open>The three ways in which a toast is dismissed all run \<open>dismissToast\<close> on the registry
  as it is.\<close>

lemma marking_step:
  assumes "m = Dismiss i \<or> (mounted w \<and> m = SwipeDismiss i) \<or>
           (\<exists>y\<in>set (pending w). callback y = AutoDismiss i \<and> m = Fire (handle y))"
    and "timer_table_ok w"
  shows "\<exists>w'. step m w = dismissToast i w' \<and> toasts w' = toasts w"
proof -
  consider (dismiss) "m = Dismiss i" | (swipe) "mounted w" "m = SwipeDismiss i"
    | (expiry) y where "y \<in> set (pending w)" "callback y = AutoDismiss i" "m = Fire (handle y)"
    using assms(1) by blast
  then show ?thesis
  proof cases
    case dismiss
    then have "step m w = dismissToast i w \<and> toasts w = toasts w"
      by (simp add: sileo_dismiss_def)
    then show ?thesis by blast
  next
    case swipe
    then have "step m w = dismissToast i (getHandlers i w) \<and> toasts (getHandlers i w) = toasts w"
      by (simp add: vp_dismissToast_eq)
    then show ?thesis by blast
  next
    case expiry
    let ?w' = "w\<lparr>pending := filter (\<lambda>t. handle t \<noteq> handle y) (pending w),
                  now := max (now w) (due y)\<rparr>"
    from fire_auto [OF assms(2) expiry(1,2)] expiry(3)
    have "step m w = dismissToast i ?w' \<and> toasts ?w' = toasts w"
      by simp
    then show ?thesis by blast
  qed
qed

text \<open>
  C5, as the code has it. No step other than \<open>clear\<close> and the firing of an exit timer
  takes an id out of the registry. \<open>dismiss\<close> and the expiry of an auto-dismiss timer
  remove nothing. Each of them (and the viewport's own dismiss handler), when the record
  of the id is live, sets \<open>exiting\<close> on every record of the id and leaves the removal to
  an exit timer that it sets for 600 ms later. The exit timer of an id removes the
  records of that id and only those; if no \<open>createToast\<close> or \<open>updateToast\<close> ran for the
  id since the marking, every record it removes is exiting. \<open>clear\<close> removes records at
  once, exiting or not.
\<close>

theorem removal_after_exiting:
  "((\<forall>p. ev \<noteq> Clear p) \<and>
    (\<forall>x\<in>set (pending (run pre init)). ev = Fire (handle x) \<longrightarrow> is_auto (callback x)) \<longrightarrow>
      set (map id' (toasts (run pre init))) \<subseteq> set (map id' (toasts (step ev (run pre init))))) \<and>
   map id' (toasts (step (Dismiss i) (run pre init))) = map id' (toasts (run pre init)) \<and>
   (x \<in> set (pending (run pre init)) \<and> is_auto (callback x) \<longrightarrow>
      map id' (toasts (step (Fire (handle x)) (run pre init))) = map id' (toasts (run pre init))) \<and>
   (x \<in> set (pending (run pre init)) \<and> callback x = ExitRemove i \<longrightarrow>
      toasts (step (Fire (handle x)) (run pre init))
        = filter (\<lambda>t. id' t \<noteq> Val i) (toasts (run pre init))) \<and>
   ((\<exists>t\<in>set (toasts (run pre init)). id' t = Val i \<and> \<not> exiting t) \<and>
    (m = Dismiss i \<or> (mounted (run pre init) \<and> m = SwipeDismiss i) \<or>
     (\<exists>y\<in>set (pending (run pre init)). callback y = AutoDismiss i \<and> m = Fire (handle y))) \<longrightarrow>
      toasts (step m (run pre init)) =
        map (\<lambda>t. if id' t = Val i then t\<lparr>exiting := True\<rparr> else t) (toasts (run pre init)) \<and>
      (\<forall>t\<in>set (toasts (step m (run pre init))). id' t = Val i \<longrightarrow> exiting t) \<and>
      (\<exists>z\<in>set (pending (step m (run pre init))).
          callback z = ExitRemove i \<and> due z = now (step m (run pre init)) + 600) \<and>
      ((\<forall>ev\<in>set es. \<not> may_rewrite i ev) \<and>
       x \<in> set (pending (run es (step m (run pre init)))) \<and> callback x = ExitRemove i \<longrightarrow>
         (\<forall>t\<in>set (toasts (run es (step m (run pre init)))).
             t \<notin> set (toasts (step (Fire (handle x)) (run es (step m (run pre init)))))
               \<longrightarrow> exiting t))) \<and>
   toasts (step (Clear Undefined) (run pre init)) = [] \<and>
   toasts (step (Clear (Val p)) (run pre init))
     = filter (\<lambda>t. position t \<noteq> Val p) (toasts (run pre init))"
proof (intro conjI impI)
  assume "(\<forall>p. ev \<noteq> Clear p) \<and>
    (\<forall>x\<in>set (pending (run pre init)). ev = Fire (handle x) \<longrightarrow> is_auto (callback x))"
  then show "set (map id' (toasts (run pre init)))
      \<subseteq> set (map id' (toasts (step ev (run pre init))))"
    using ids_kept_step [of ev "run pre init"] by blast
next
  show "map id' (toasts (step (Dismiss i) (run pre init))) = map id' (toasts (run pre init))"
    by (simp add: sileo_dismiss_def)
next
  assume a: "x \<in> set (pending (run pre init)) \<and> is_auto (callback x)"
  have ok: "timer_table_ok (run pre init)"
    using reachable_viewport_ok [of pre] by (simp add: viewport_ok_def)
  have "\<forall>y\<in>set (pending (run pre init)). handle x = handle y \<longrightarrow> is_auto (callback y)"
    using a same_handle_same_timer [OF ok] by blast
  from fire_auto_ids [OF this]
  show "map id' (toasts (step (Fire (handle x)) (run pre init))) = map id' (toasts (run pre init))"
    by simp
next
  assume a: "x \<in> set (pending (run pre init)) \<and> callback x = ExitRemove i"
  have ok: "timer_table_ok (run pre init)"
    using reachable_viewport_ok [of pre] by (simp add: viewport_ok_def)
  from a fire_exit(1) [OF ok, of x i]
  show "toasts (step (Fire (handle x)) (run pre init))
        = filter (\<lambda>t. id' t \<noteq> Val i) (toasts (run pre init))"
    by simp
next
  let ?w = "run pre init"
  assume a: "(\<exists>t\<in>set (toasts ?w). id' t = Val i \<and> \<not> exiting t) \<and>
    (m = Dismiss i \<or> (mounted ?w \<and> m = SwipeDismiss i) \<or>
     (\<exists>y\<in>set (pending ?w). callback y = AutoDismiss i \<and> m = Fire (handle y)))"
  then obtain t where t: "t \<in> set (toasts ?w)" "id' t = Val i" "\<not> exiting t"
    by blast
  have ok: "timer_table_ok ?w"
    using reachable_viewport_ok [of pre] by (simp add: viewport_ok_def)
  from a marking_step [OF _ ok, of m i] obtain w'
    where st: "step m ?w = dismissToast i w'" and same: "toasts w' = toasts ?w"
    by blast
  have d: "distinct (map id' (toasts w'))"
    unfolding same by (rule reachable_distinct)
  have t': "t \<in> set (toasts w')" using t(1) by (simp only: same)
  note marks = dismissToast_marks [OF d t' t(2,3)]
  show "toasts (step m ?w) =
        map (\<lambda>t. if id' t = Val i then t\<lparr>exiting := True\<rparr> else t) (toasts ?w)"
    unfolding st using marks(1) by (simp only: same)
  show e1: "\<forall>t\<in>set (toasts (step m ?w)). id' t = Val i \<longrightarrow> exiting t"
    unfolding st by (rule marks(2))
  have n: "now (dismissToast i w') = now w'" by simp
  show "\<exists>z\<in>set (pending (step m ?w)).
          callback z = ExitRemove i \<and> due z = now (step m ?w) + 600"
    unfolding st n by (rule marks(3))
  {
    assume b: "(\<forall>ev\<in>set es. \<not> may_rewrite i ev) \<and>
       x \<in> set (pending (run es (step m ?w))) \<and> callback x = ExitRemove i"
    have w1: "step m ?w = run (pre @ [m]) init" by simp
    from b e1 exit_removes_exiting [of "pre @ [m]" i es x]
    show "\<forall>t\<in>set (toasts (run es (step m ?w))).
             t \<notin> set (toasts (step (Fire (handle x)) (run es (step m ?w)))) \<longrightarrow> exiting t"
      unfolding w1 by blast
  }
next
  show "toasts (step (Clear Undefined) (run pre init)) = []" by simp
  show "toasts (step (Clear (Val p)) (run pre init))
     = filter (\<lambda>t. position t \<noteq> Val p) (toasts (run pre init))" by simp
qed

text \<open>A toast of the default duration, shown at time 0 in a mounted viewport: when its
  auto-dismiss timer fires at time 6000 the toast stays in the registry, now exiting, and
  the exit timer set then empties the registry 600 ms later. A dismissed toast keeps its
  place in the registry and stays exiting through a second dismiss; its exit timer then
  empties the registry.\<close>

theorem removal_after_exiting_witness:
  "map (\<lambda>t. (id' t, exiting t))
     (toasts (run [Mount TopRight None, Show plain env0, Advance 6000] init))
     = [(Val ''sileo-default'', False)] \<and>
   map (\<lambda>t. (id' t, exiting t))
     (toasts (step (Fire 1) (run [Mount TopRight None, Show plain env0, Advance 6000] init)))
     = [(Val ''sileo-default'', True)] \<and>
   map id' (toasts (step (Fire 1) (run [Mount TopRight None, Show plain env0, Advance 6000] init)))
     = [Val ''sileo-default''] \<and>
   list_all exiting (toasts (run [Advance 600]
      (step (Fire 1) (run [Mount TopRight None, Show plain env0, Advance 6000] init)))) \<and>
   toasts (step (Fire 2) (run [Advance 600]
      (step (Fire 1) (run [Mount TopRight None, Show plain env0, Advance 6000] init)))) = [] \<and>
   Val ''sileo-default''
     \<in> set (map id' (toasts (step (Dismiss ''sileo-default'') (run [Show plain env0] init)))) \<and>
   list_all exiting (toasts (run [Advance 300, Dismiss ''sileo-default'']
      (step (Dismiss ''sileo-default'') (run [Show plain env0] init)))) \<and>
   toasts (step (Fire 1) (run [Show plain env0, Dismiss ''sileo-default'', Advance 600] init)) = []"
proof -
  let ?d = "''sileo-default''"
  let ?mark = "\<lambda>t. if id' t = Val ?d then t\<lparr>exiting := True\<rparr> else t"
  let ?pre1 = "[Mount TopRight None, Show plain env0, Advance 6000]"
  let ?y = "\<lparr>handle = 1, due = 6000, callback = AutoDismiss ?d\<rparr>"
  let ?x1 = "\<lparr>handle = 2, due = 6600, callback = ExitRemove ?d\<rparr>"
  let ?es1 = "[Advance 600]"
  let ?v = "run ?es1 (step (Fire 1) (run ?pre1 init))"
  have c0: "map (\<lambda>t. (id' t, exiting t)) (toasts (run ?pre1 init)) = [(Val ?d, False)]"
    by code_simp
  have g1: "\<exists>t\<in>set (toasts (run ?pre1 init)). id' t = Val ?d \<and> \<not> exiting t" by code_simp
  have y: "?y \<in> set (pending (run ?pre1 init))" by code_simp
  have "callback ?y = AutoDismiss ?d \<and> Fire 1 = Fire (handle ?y)" by simp
  with y have g2: "\<exists>y\<in>set (pending (run ?pre1 init)).
      callback y = AutoDismiss ?d \<and> Fire 1 = Fire (handle y)"
    by blast
  have g3: "\<forall>ev\<in>set ?es1. \<not> may_rewrite ?d ev" by simp
  have g4: "?x1 \<in> set (pending ?v)" by code_simp
  have g5: "callback ?x1 = ExitRemove ?d" by simp
  have g6: "toasts (step (Fire (handle ?x1)) ?v) = []" by code_simp
  note expiry = removal_after_exiting [where pre = ?pre1 and x = ?x1 and i = ?d and es = ?es1
      and ev = "Advance 0" and p = TopLeft and m = "Fire 1"]
  from expiry g1 g2
  have "toasts (step (Fire 1) (run ?pre1 init)) = map ?mark (toasts (run ?pre1 init))"
    by blast
  moreover have "map (\<lambda>t. (id' t, exiting t)) (map ?mark (toasts (run ?pre1 init)))
      = [(Val ?d, True)]"
    by code_simp
  ultimately have c1: "map (\<lambda>t. (id' t, exiting t)) (toasts (step (Fire 1) (run ?pre1 init)))
      = [(Val ?d, True)]"
    by (simp only:)
  have a2: "is_auto (callback ?y)" by simp
  have a3: "map id' (toasts (run ?pre1 init)) = [Val ?d]" by code_simp
  from removal_after_exiting [where pre = ?pre1 and x = ?y and i = ?d and es = "[]"
      and ev = "Advance 0" and p = TopLeft and m = "Fire 1"] y a2
  have "map id' (toasts (step (Fire (handle ?y)) (run ?pre1 init))) = map id' (toasts (run ?pre1 init))"
    by blast
  then have c1': "map id' (toasts (step (Fire 1) (run ?pre1 init))) = [Val ?d]"
    by (simp only: a3 timer.simps)
  from expiry g1 g2 g3 g4 g5
  have "\<forall>t\<in>set (toasts ?v). t \<notin> set (toasts (step (Fire (handle ?x1)) ?v)) \<longrightarrow> exiting t"
    by blast
  then have c2: "list_all exiting (toasts ?v)"
    by (simp only: g6 list_all_iff) simp
  from g6 have c3: "toasts (step (Fire 2) ?v) = []"
    by (simp only: timer.simps)
  let ?pre = "[Show plain env0]"
  let ?es = "[Advance 300, Dismiss ?d]"
  let ?x = "\<lparr>handle = 1, due = 600, callback = ExitRemove ?d\<rparr>"
  let ?w2 = "run ?es (step (Dismiss ?d) (run ?pre init))"
  have h1: "\<exists>t\<in>set (toasts (run ?pre init)). id' t = Val ?d \<and> \<not> exiting t" by code_simp
  have h2: "\<forall>ev\<in>set ?es. \<not> may_rewrite ?d ev" by simp
  have h3: "?x \<in> set (pending ?w2)" by code_simp
  have h4: "callback ?x = ExitRemove ?d" by simp
  have h5: "toasts (step (Fire (handle ?x)) ?w2) = []" by code_simp
  note dismissal = removal_after_exiting [where pre = ?pre and x = ?x and i = ?d and es = ?es
      and ev = "Dismiss ?d" and p = TopLeft and m = "Dismiss ?d"]
  have k1: "\<forall>p. Dismiss ?d \<noteq> Clear p" by simp
  have k2: "\<forall>x\<in>set (pending (run ?pre init)). Dismiss ?d = Fire (handle x) \<longrightarrow> is_auto (callback x)"
    by simp
  have k3: "Val ?d \<in> set (map id' (toasts (run ?pre init)))" by code_simp
  from dismissal k1 k2
  have "set (map id' (toasts (run ?pre init)))
          \<subseteq> set (map id' (toasts (step (Dismiss ?d) (run ?pre init))))"
    by blast
  with k3 have c6: "Val ?d \<in> set (map id' (toasts (step (Dismiss ?d) (run ?pre init))))"
    by (rule rev_subsetD)
  from dismissal h1 h2 h3 h4
  have "\<forall>t\<in>set (toasts ?w2). t \<notin> set (toasts (step (Fire (handle ?x)) ?w2)) \<longrightarrow> exiting t"
    by blast
  then have c4: "list_all exiting (toasts ?w2)"
    by (simp only: h5 list_all_iff) simp
  let ?pre3 = "[Show plain env0, Dismiss ?d, Advance 600]"
  have m1: "?x \<in> set (pending (run ?pre3 init))" by code_simp
  have m2: "filter (\<lambda>t. id' t \<noteq> Val ?d) (toasts (run ?pre3 init)) = []" by code_simp
  from removal_after_exiting [where pre = ?pre3 and x = ?x and i = ?d and es = "[]"
      and ev = "Advance 0" and p = TopLeft and m = "Dismiss ?d"] m1 h4
  have "toasts (step (Fire (handle ?x)) (run ?pre3 init))
          = filter (\<lambda>t. id' t \<noteq> Val ?d) (toasts (run ?pre3 init))"
    by blast
  then have c5: "toasts (step (Fire 1) (run ?pre3 init)) = []"
    by (simp only: m2 timer.simps)
  from c0 c1 c1' c2 c3 c6 c4 c5 show ?thesis by (intro conjI)
qed

text \<open>The claim that every removal passes through the exiting phase fails for \<open>clear\<close>: a live
  record is gone in the next state.\<close>

theorem clear_skips_exiting_counterexample:
  "map (\<lambda>t. (id' t, exiting t)) (toasts (run [Show plain env0] init))
     = [(Val ''sileo-default'', False)] \<and>
   toasts (step (Clear Undefined) (run [Show plain env0] init)) = []"
  by code_simp

text \<open>
  C6, at the input where the code breaks it. \<open>dismiss\<close> of a live record marks it at once
  and sets the exit timer for 600 ms later, but that timer removes by id alone. A toast
  is dismissed; 100 ms later a new toast is shown, under the same (default) id; at 600 ms
  the exit timer of the dismissal fires and removes the new toast, a record created
  after the dismissal, which never was exiting.
\<close>

theorem stale_exit_timer_removes_new_record:
  "map (\<lambda>t. (id' t, instanceId t, exiting t))
     (toasts (run [Show plain env0, Dismiss ''sileo-default''] init))
     = [(Val ''sileo-default'', ''1-t-r'', True)] \<and>
   pending (run [Show plain env0, Dismiss ''sileo-default''] init)
     = [\<lparr>handle = 1, due = 600, callback = ExitRemove ''sileo-default''\<rparr>] \<and>
   map (\<lambda>t. (id' t, instanceId t, title t, exiting t))
     (toasts (run [Show plain env0, Dismiss ''sileo-default'',
                   Advance 100, Show (plain\<lparr>title := Val ''Next''\<rparr>) env0] init))
     = [(Val ''sileo-default'', ''2-t-r'', Val ''Next'', False)] \<and>
   toasts (run [Show plain env0, Dismiss ''sileo-default'',
                Advance 100, Show (plain\<lparr>title := Val ''Next''\<rparr>) env0,
                Advance 500, Fire 1] init) = []"
  by code_simp

section \<open>Unmounting the viewport\<close>

text \<open>
  C8, as the code has it. Every pending auto-dismiss timer is recorded in the viewport's
  \<open>timers\<close> map, and \<open>onUnmounted\<close> clears the map and all of them: from the unmount to the
  next mount no auto-dismiss timer is pending, so none fires. The exit timers that
  \<open>dismissToast\<close> sets (the store's copy and the viewport's copy alike) are recorded
  nowhere and nothing clears them: each stays pending until it fires, also across an
  unmount.
\<close>

theorem viewport_timers_cleared_on_unmount:
  "(\<forall>x\<in>set (pending (run pre init)).
      is_auto (callback x) \<longrightarrow> handle x \<in> snd ` set (timers (run pre init))) \<and>
   timers (step Unmount (run pre init)) = [] \<and>
   ((\<forall>ev\<in>set es. \<forall>p opts. ev \<noteq> Mount p opts) \<longrightarrow>
      (\<forall>x\<in>set (pending (run es (step Unmount (run pre init)))). \<not> is_auto (callback x))) \<and>
   (x \<in> set (pending (run pre init)) \<and> \<not> is_auto (callback x) \<and>
    (\<forall>ev\<in>set es. ev \<noteq> Fire (handle x)) \<longrightarrow>
      x \<in> set (pending (run es (run pre init))))"
proof (intro conjI impI)
  show "\<forall>x\<in>set (pending (run pre init)).
      is_auto (callback x) \<longrightarrow> handle x \<in> snd ` set (timers (run pre init))"
    using reachable_viewport_ok [of pre] by (simp add: viewport_ok_def timer_table_ok_def)
next
  show "timers (step Unmount (run pre init)) = []"
    using reachable_viewport_ok [of pre] by (simp add: viewport_ok_def)
next
  assume a: "\<forall>ev\<in>set es. \<forall>p opts. ev \<noteq> Mount p opts"
  have "\<not> mounted (step Unmount (run pre init))" by simp
  from run_stays_unmounted [OF this a]
  have u: "\<not> mounted (run es (step Unmount (run pre init)))" .
  have "run es (step Unmount (run pre init)) = run (pre @ [Unmount] @ es) init" by simp
  then have ok: "viewport_ok (run es (step Unmount (run pre init)))"
    using reachable_viewport_ok by (simp only:)
  with u have "timers (run es (step Unmount (run pre init))) = []"
    by (simp only: viewport_ok_def) blast
  from no_auto_without_timers [OF ok this]
  show "\<forall>x\<in>set (pending (run es (step Unmount (run pre init)))). \<not> is_auto (callback x)" .
next
  assume "x \<in> set (pending (run pre init)) \<and> \<not> is_auto (callback x) \<and>
    (\<forall>ev\<in>set es. ev \<noteq> Fire (handle x))"
  then show "x \<in> set (pending (run es (run pre init)))"
    using reachable_viewport_ok [of pre] exit_kept_run [of "run pre init" x es] by simp
qed

text \<open>After an unmount, a further \<open>show\<close> sets no auto-dismiss timer. An exit timer set by
  the viewport's own \<open>dismissToast\<close> is still pending after the unmount.\<close>

theorem viewport_timers_cleared_on_unmount_witness:
  "list_all (\<lambda>x. \<not> is_auto (callback x))
     (pending (run [Advance 10, Show plain env0]
        (step Unmount (run [Mount TopRight None, Show plain env0] init)))) \<and>
   \<lparr>handle = 2, due = 6600, callback = ExitRemove ''sileo-default''\<rparr>
     \<in> set (pending (run [Unmount, Advance 10]
          (run [Mount TopRight None, Show plain env0, Advance 6000, Fire 1] init)))"
proof -
  let ?d = "''sileo-default''"
  let ?pre = "[Mount TopRight None, Show plain env0]"
  let ?es = "[Advance 10, Show plain env0]"
  have h1: "\<forall>ev\<in>set ?es. \<forall>p opts. ev \<noteq> Mount p opts" by simp
  from viewport_timers_cleared_on_unmount [where pre = ?pre and es = ?es
      and x = "\<lparr>handle = 0, due = 0, callback = ExitRemove ?d\<rparr>"] h1
  have "\<forall>x\<in>set (pending (run ?es (step Unmount (run ?pre init)))). \<not> is_auto (callback x)"
    by blast
  then have c1: "list_all (\<lambda>x. \<not> is_auto (callback x))
      (pending (run ?es (step Unmount (run ?pre init))))"
    by (simp only: list_all_iff)
  let ?pre2 = "[Mount TopRight None, Show plain env0, Advance 6000, Fire 1]"
  let ?es2 = "[Unmount, Advance 10]"
  let ?x = "\<lparr>handle = 2, due = 6600, callback = ExitRemove ?d\<rparr>"
  have g1: "?x \<in> set (pending (run ?pre2 init))" by code_simp
  have g2: "\<not> is_auto (callback ?x)" by simp
  have g3: "\<forall>ev\<in>set ?es2. ev \<noteq> Fire (handle ?x)" by simp
  from viewport_timers_cleared_on_unmount [where pre = ?pre2 and es = ?es2 and x = ?x] g1 g2 g3
  have c2: "?x \<in> set (pending (run ?es2 (run ?pre2 init)))"
    by blast
  from c1 c2 show ?thesis by (intro conjI)
qed

text \<open>The claim that the viewport's timers are all cleared on unmount fails for that exit
  timer: set at time 6000 when the toast's auto-dismiss timer expired, it survives the
  unmount and its firing still changes the registry.\<close>

theorem exit_timer_fires_after_unmount_counterexample:
  "pending (run [Mount TopRight None, Show plain env0, Advance 6000, Fire 1, Unmount] init)
     = [\<lparr>handle = 2, due = 6600, callback = ExitRemove ''sileo-default''\<rparr>] \<and>
   map exiting (toasts (run [Mount TopRight None, Show plain env0, Advance 6000, Fire 1,
                             Unmount] init)) = [True] \<and>
   toasts (run [Mount TopRight None, Show plain env0, Advance 6000, Fire 1, Unmount,
                Advance 600, Fire 2] init) = []"
  by code_simp

section \<open>Timer keys\<close>





lemma item_ok_mark [simp]: "item_ok (t\<lparr>exiting := True\<rparr>) = item_ok t"
  by (simp add: item_ok_def)












section \<open>What \<open>schedule\<close> sets\<close>




section \<open>Hovering\<close>





section \<open>sileo.promise\<close>

text \<open>
  The claim that a fulfilled promise always takes the toast to \<open>success\<close>, and never to
  \<open>error\<close>, fails twice: when the registry was cleared before the promise settles, no
  toast is updated at all; when the caller's \<open>success\<close> function throws, the \<open>catch\<close>
  handler runs after the \<open>then\<close> handler and the toast of a fulfilled promise ends in
  state \<open>error\<close>.
\<close>

theorem promise_toast_not_updated_counterexample:
  "fst (sileo_promise (Started 7) promise_opts env0 init) = Inr 7 \<and>
   map (\<lambda>t. (id' t, state t)) (toasts (run [PromiseE (Started 7) promise_opts env0] init))
     = [(Val ''sileo-default'', Val Loading)] \<and>
   toasts (run [PromiseE (Started 7) promise_opts env0, Clear Undefined,
                Settle 7 (Fulfilled ''data'') env0] init) = [] \<and>
   map (\<lambda>t. (id' t, state t))
     (toasts (run [PromiseE (Started 7) throwing_opts env0,
                   Settle 7 (Fulfilled ''data'') env0] init))
     = [(Val ''sileo-default'', Val Error)]"
  by code_simp

lemma step_reactions_eq:
  "reactions (step ev w) =
     (case ev of
        PromiseE promise opts e \<Rightarrow>
          (case call_operation promise of
             Inl exn \<Rightarrow> reactions w
           | Inr q \<Rightarrow> reactions w @ [(q, ''sileo-default'', opts)])
      | Settle q out e \<Rightarrow> filter (\<lambda>(q', i, opts). q' \<noteq> q) (reactions w)
      | _ \<Rightarrow> reactions w)"
proof (cases ev)
  case (PromiseE promise opts e)
  have "fst (fst (createToast (loading_options opts) e w)) = ''sileo-default''"
    by (simp add: createToast_fst toast_id_def loading_options_def)
  with PromiseE show ?thesis
    by (simp add: sileo_promise_def case_prod_beta split: sum.splits)
qed (simp_all add: sileo_show_def sileo_success_def sileo_error_def sileo_warning_def
      sileo_info_def sileo_action_def sileo_dismiss_def vp_dismissToast_eq case_prod_beta
      unmount_def syncConfig_def enter_def leave_def Let_def mount_def)

lemma reactions_of_promise_step:
  assumes "\<not> uses_promise p ev"
  shows "filter (\<lambda>r. fst r = p) (reactions (step ev w)) = filter (\<lambda>r. fst r = p) (reactions w)"
proof (cases ev)
  case (PromiseE promise opts e)
  with assms step_reactions_eq [of "PromiseE promise opts e" w] show ?thesis
    by (auto split: sum.splits)
next
  case (Settle q out e)
  with assms have "q \<noteq> p" by simp
  then have "filter (\<lambda>r. fst r = p) (filter (\<lambda>(q', i, opts). q' \<noteq> q) rs)
           = filter (\<lambda>r. fst r = p) rs" for rs :: "(nat \<times> string \<times> SileoPromiseOptions) list"
    by (induction rs) auto
  with Settle step_reactions_eq [of "Settle q out e" w] show ?thesis by simp
next
  case (Show opts e) with step_reactions_eq [of ev w] show ?thesis by simp
next
  case (SuccessE opts e) with step_reactions_eq [of ev w] show ?thesis by simp
next
  case (ErrorE opts e) with step_reactions_eq [of ev w] show ?thesis by simp
next
  case (WarningE opts e) with step_reactions_eq [of ev w] show ?thesis by simp
next
  case (InfoE opts e) with step_reactions_eq [of ev w] show ?thesis by simp
next
  case (ActionE opts e) with step_reactions_eq [of ev w] show ?thesis by simp
next
  case (Dismiss i) with step_reactions_eq [of ev w] show ?thesis by simp
next
  case (Clear q) with step_reactions_eq [of ev w] show ?thesis by simp
next
  case (Fire h) with step_reactions_eq [of ev w] show ?thesis by simp
next
  case (Advance dt) with step_reactions_eq [of ev w] show ?thesis by simp
next
  case (Mount q opts) with step_reactions_eq [of ev w] show ?thesis by simp
next
  case (SetProps q opts) with step_reactions_eq [of ev w] show ?thesis by simp
next
  case Unmount with step_reactions_eq [of ev w] show ?thesis by simp
next
  case (MouseEnter i) with step_reactions_eq [of ev w] show ?thesis by simp
next
  case (MouseLeave i) with step_reactions_eq [of ev w] show ?thesis by simp
next
  case (SwipeDismiss i) with step_reactions_eq [of ev w] show ?thesis by simp
qed

lemma reactions_of_promise_run:
  assumes "\<forall>ev\<in>set es. \<not> uses_promise p ev"
  shows "filter (\<lambda>r. fst r = p) (reactions (run es w)) = filter (\<lambda>r. fst r = p) (reactions w)"
  using assms
proof (induction es arbitrary: w)
  case Nil
  then show ?case by simp
next
  case (Cons ev es)
  then show ?case by (simp add: reactions_of_promise_step)
qed

lemma settle_only_own:
  "fold (\<lambda>(q, i, opts) w'. if q = p then react i opts out e w' else w') rs s
     = fold (\<lambda>(q, i, opts) w'. react i opts out e w') (filter (\<lambda>r. fst r = p) rs) s"
  by (induction rs arbitrary: s) (auto split: prod.splits)

lemma settle_single:
  assumes "filter (\<lambda>r. fst r = p) (reactions w) = [(p, i, opts)]"
  shows "settle p out e w =
           react i opts out e (w\<lparr>reactions := filter (\<lambda>(q, i, opts). q \<noteq> p) (reactions w)\<rparr>)"
  by (simp add: settle_def settle_only_own assms)

lemma react_normal:
  "action opts = None \<Longrightarrow> resolve (success opts) d = Inr so \<Longrightarrow>
     react i opts (Fulfilled d) e w = updateToast i (with_state so Success i) e w"
  "action opts = Some a \<Longrightarrow> resolve a d = Inr ao \<Longrightarrow>
     react i opts (Fulfilled d) e w = updateToast i (with_state ao Action i) e w"
  "resolve (error opts) err = Inr eo \<Longrightarrow>
     react i opts (Rejected err) e w = updateToast i (with_state eo Error i) e w"
  by (simp_all add: react_def onFulfilled_def onRejected_def)

lemma filter_others_replace:
  "id' item = Val i \<Longrightarrow>
     filter (\<lambda>u. id' u \<noteq> Val i) (map (\<lambda>t. if id' t = Val i then item else t) ts)
       = filter (\<lambda>u. id' u \<noteq> Val i) ts"
  by (induction ts) auto

lemma updateToast_state:
  assumes "distinct (map id' (toasts w))" and "t \<in> set (toasts w)" and "id' t = Val i"
  shows "\<forall>u\<in>set (toasts (updateToast i options e w)). id' u = Val i \<longrightarrow> state u = state options"
    and "length (filter (\<lambda>u. id' u = Val i) (toasts (updateToast i options e w))) = 1"
    and "filter (\<lambda>u. id' u \<noteq> Val i) (toasts (updateToast i options e w))
           = filter (\<lambda>u. id' u \<noteq> Val i) (toasts w)"
proof -
  have ex: "\<exists>t\<in>set (toasts w). id' t = Val i" using assms(2,3) by blast
  then have u: "toasts (updateToast i options e w) =
      map (\<lambda>t. if id' t = Val i then rebuilt i options e w else t) (toasts w)"
    by (simp only: updateToast_toasts if_True)
  show "\<forall>u\<in>set (toasts (updateToast i options e w)). id' u = Val i \<longrightarrow> state u = state options"
    unfolding u by auto
  have "map id' (toasts (updateToast i options e w)) = map id' (toasts w)" by simp
  then have "distinct (map id' (toasts (updateToast i options e w)))" using assms(1) by simp
  moreover have "rebuilt i options e w \<in> set (toasts (updateToast i options e w))"
    unfolding u using assms(2,3) by (auto simp add: image_iff)
  ultimately show "length (filter (\<lambda>u. id' u = Val i) (toasts (updateToast i options e w))) = 1"
    by (rule distinct_count_one) simp
  show "filter (\<lambda>u. id' u \<noteq> Val i) (toasts (updateToast i options e w))
           = filter (\<lambda>u. id' u \<noteq> Val i) (toasts w)"
    unfolding u by (rule filter_others_replace) simp
qed

lemma updateToast_absent:
  "\<forall>t\<in>set (toasts w). id' t \<noteq> Val i \<Longrightarrow> updateToast i options e w = w"
  by (auto simp add: updateToast_eq)

text \<open>
  C2, as the code has it. \<open>sileo.promise\<close> returns the promise it was given (or the one
  its factory returned). When that promise settles, the one reaction registered for it
  runs. If the caller's option functions return normally, then on fulfilment the
  reaction is \<open>updateToast\<close> with state \<open>success\<close> (\<open>action\<close> when an action option was
  given) and on rejection it is \<open>updateToast\<close> with state \<open>error\<close>, never the other one.
  \<open>updateToast\<close> sets that state on the one record of the captured id while other
  records stay as they are, and does nothing at all when no record of that id is left in
  the registry.
\<close>

theorem promise_adapter:
  "(call_operation promise = Inr p \<longrightarrow>
      fst (sileo_promise promise opts e (run pre init)) = Inr p) \<and>
   ((\<forall>r\<in>set (reactions (run pre init)). fst r \<noteq> p) \<and> call_operation promise = Inr p \<and>
    (\<forall>ev\<in>set es. \<not> uses_promise p ev) \<longrightarrow>
      step (Settle p out e') (run es (step (PromiseE promise opts e) (run pre init))) =
        react ''sileo-default'' opts out e'
          ((run es (step (PromiseE promise opts e) (run pre init)))
             \<lparr>reactions := filter (\<lambda>(q, i, opts). q \<noteq> p)
                (reactions (run es (step (PromiseE promise opts e) (run pre init))))\<rparr>)) \<and>
   (action opts = None \<and> resolve (success opts) d = Inr so \<longrightarrow>
      react i opts (Fulfilled d) e' w = updateToast i (with_state so Success i) e' w) \<and>
   (action opts = Some a \<and> resolve a d = Inr so \<longrightarrow>
      react i opts (Fulfilled d) e' w = updateToast i (with_state so Action i) e' w) \<and>
   (resolve (error opts) d = Inr so \<longrightarrow>
      react i opts (Rejected d) e' w = updateToast i (with_state so Error i) e' w) \<and>
   (distinct (map id' (toasts w)) \<and> (\<exists>t\<in>set (toasts w). id' t = Val i) \<longrightarrow>
      (\<forall>u\<in>set (toasts (updateToast i (with_state so s i) e' w)).
          id' u = Val i \<longrightarrow> state u = Val s) \<and>
      length (filter (\<lambda>u. id' u = Val i) (toasts (updateToast i (with_state so s i) e' w))) = 1 \<and>
      filter (\<lambda>u. id' u \<noteq> Val i) (toasts (updateToast i (with_state so s i) e' w))
        = filter (\<lambda>u. id' u \<noteq> Val i) (toasts w)) \<and>
   ((\<forall>t\<in>set (toasts w). id' t \<noteq> Val i) \<longrightarrow> updateToast i (with_state so s i) e' w = w)"
proof (intro conjI impI)
  assume "call_operation promise = Inr p"
  then show "fst (sileo_promise promise opts e (run pre init)) = Inr p"
    by (simp add: sileo_promise_def case_prod_beta)
next
  let ?W1 = "step (PromiseE promise opts e) (run pre init)"
  let ?W2 = "run es ?W1"
  assume a: "(\<forall>r\<in>set (reactions (run pre init)). fst r \<noteq> p) \<and> call_operation promise = Inr p \<and>
    (\<forall>ev\<in>set es. \<not> uses_promise p ev)"
  then have "filter (\<lambda>r. fst r = p) (reactions (run pre init)) = []"
    by (simp add: filter_empty_conv)
  with a step_reactions_eq [of "PromiseE promise opts e" "run pre init"]
  have "filter (\<lambda>r. fst r = p) (reactions ?W1) = [(p, ''sileo-default'', opts)]"
    by simp
  with a reactions_of_promise_run [of es p ?W1]
  have "filter (\<lambda>r. fst r = p) (reactions ?W2) = [(p, ''sileo-default'', opts)]"
    by simp
  from settle_single [OF this]
  show "step (Settle p out e') ?W2 =
        react ''sileo-default'' opts out e'
          (?W2\<lparr>reactions := filter (\<lambda>(q, i, opts). q \<noteq> p) (reactions ?W2)\<rparr>)"
    by simp
next
  assume "action opts = None \<and> resolve (success opts) d = Inr so"
  then show "react i opts (Fulfilled d) e' w = updateToast i (with_state so Success i) e' w"
    by (simp add: react_normal)
next
  assume "action opts = Some a \<and> resolve a d = Inr so"
  then show "react i opts (Fulfilled d) e' w = updateToast i (with_state so Action i) e' w"
    by (simp add: react_normal)
next
  assume "resolve (error opts) d = Inr so"
  then show "react i opts (Rejected d) e' w = updateToast i (with_state so Error i) e' w"
    by (simp add: react_normal)
next
  assume a: "distinct (map id' (toasts w)) \<and> (\<exists>t\<in>set (toasts w). id' t = Val i)"
  then obtain t where t: "t \<in> set (toasts w)" "id' t = Val i" by blast
  from a have d: "distinct (map id' (toasts w))" by simp
  have s: "state (with_state so s i) = Val s" by (simp add: with_state_def)
  from updateToast_state [OF d t, of "with_state so s i" e']
  show "\<forall>u\<in>set (toasts (updateToast i (with_state so s i) e' w)).
          id' u = Val i \<longrightarrow> state u = Val s"
    and "length (filter (\<lambda>u. id' u = Val i) (toasts (updateToast i (with_state so s i) e' w))) = 1"
    and "filter (\<lambda>u. id' u \<noteq> Val i) (toasts (updateToast i (with_state so s i) e' w))
        = filter (\<lambda>u. id' u \<noteq> Val i) (toasts w)"
    by (simp_all only: s)
next
  assume "\<forall>t\<in>set (toasts w). id' t \<noteq> Val i"
  then show "updateToast i (with_state so s i) e' w = w"
    by (rule updateToast_absent)
qed

text \<open>A promise given to \<open>sileo.promise\<close> in the empty registry is fulfilled two seconds
  later: the loading toast is then in state \<open>success\<close>; rejected instead, it is in state
  \<open>error\<close>.\<close>

theorem promise_adapter_witness:
  "fst (sileo_promise (Started 7) promise_opts env0 (run [] init)) = Inr 7 \<and>
   list_all (\<lambda>u. id' u = Val ''sileo-default'' \<longrightarrow> state u = Val Success)
     (toasts (step (Settle 7 (Fulfilled ''data'') env0)
        (run [Advance 2000] (step (PromiseE (Started 7) promise_opts env0) (run [] init))))) \<and>
   list_all (\<lambda>u. id' u = Val ''sileo-default'' \<longrightarrow> state u = Val Error)
     (toasts (step (Settle 7 (Rejected ''oops'') env0)
        (run [Advance 2000] (step (PromiseE (Started 7) promise_opts env0) (run [] init)))))"
proof -
  let ?d = "''sileo-default''"
  let ?W2 = "run [Advance 2000] (step (PromiseE (Started 7) promise_opts env0) (run [] init))"
  let ?W3 = "?W2\<lparr>reactions := filter (\<lambda>(q, i, opts). q \<noteq> 7) (reactions ?W2)\<rparr>"
  let ?so = "no_options\<lparr>title := Val ''Done''\<rparr>"
  let ?eo = "no_options\<lparr>title := Val ''Failed''\<rparr>"
  have h1: "\<forall>r\<in>set (reactions (run [] init)). fst r \<noteq> 7" by (simp add: init_def)
  have h2: "call_operation (Started 7) = Inr 7" by simp
  have h3: "\<forall>ev\<in>set [Advance 2000]. \<not> uses_promise 7 ev" by simp
  have h4: "action promise_opts = None" "resolve (success promise_opts) ''data'' = Inr ?so"
    "resolve (error promise_opts) ''oops'' = Inr ?eo"
    by (simp_all add: promise_opts_def)
  have h5: "distinct (map id' (toasts ?W3))" by code_simp
  have h6: "\<exists>t\<in>set (toasts ?W3). id' t = Val ?d" by code_simp
  note ful = promise_adapter [where pre = "[]" and promise = "Started 7" and p = 7
      and opts = promise_opts and e = env0 and es = "[Advance 2000]" and e' = env0
      and out = "Fulfilled ''data''" and d = "''data''" and so = ?so and i = ?d and w = ?W3
      and s = Success and a = "Static ?so"]
  note rej = promise_adapter [where pre = "[]" and promise = "Started 7" and p = 7
      and opts = promise_opts and e = env0 and es = "[Advance 2000]" and e' = env0
      and out = "Rejected ''oops''" and d = "''oops''" and so = ?eo and i = ?d and w = ?W3
      and s = Error and a = "Static ?so"]
  from ful h2 have c1: "fst (sileo_promise (Started 7) promise_opts env0 (run [] init)) = Inr 7"
    by blast
  from ful h1 h2 h3 have "step (Settle 7 (Fulfilled ''data'') env0) ?W2
      = react ?d promise_opts (Fulfilled ''data'') env0 ?W3"
    by blast
  also from ful h4 have "\<dots> = updateToast ?d (with_state ?so Success ?d) env0 ?W3"
    by blast
  finally have s1: "step (Settle 7 (Fulfilled ''data'') env0) ?W2
      = updateToast ?d (with_state ?so Success ?d) env0 ?W3" .
  from ful h5 h6 have "\<forall>u\<in>set (toasts (updateToast ?d (with_state ?so Success ?d) env0 ?W3)).
      id' u = Val ?d \<longrightarrow> state u = Val Success"
    by blast
  then have c2: "list_all (\<lambda>u. id' u = Val ?d \<longrightarrow> state u = Val Success)
      (toasts (step (Settle 7 (Fulfilled ''data'') env0) ?W2))"
    by (simp only: s1 list_all_iff)
  from rej h1 h2 h3 have "step (Settle 7 (Rejected ''oops'') env0) ?W2
      = react ?d promise_opts (Rejected ''oops'') env0 ?W3"
    by blast
  also from rej h4 have "\<dots> = updateToast ?d (with_state ?eo Error ?d) env0 ?W3"
    by blast
  finally have s2: "step (Settle 7 (Rejected ''oops'') env0) ?W2
      = updateToast ?d (with_state ?eo Error ?d) env0 ?W3" .
  from rej h5 h6 have "\<forall>u\<in>set (toasts (updateToast ?d (with_state ?eo Error ?d) env0 ?W3)).
      id' u = Val ?d \<longrightarrow> state u = Val Error"
    by blast
  then have c3: "list_all (\<lambda>u. id' u = Val ?d \<longrightarrow> state u = Val Error)
      (toasts (step (Settle 7 (Rejected ''oops'') env0) ?W2))"
    by (simp only: s2 list_all_iff)
  from c1 c2 c3 show ?thesis by (intro conjI)
qed

end
